theory Spec2Isabelle
  imports Complex_Main "HOL-Library.Multiset" "HOL-Library.Sublist"
begin

section \<open>Python values and strings\<close>

text \<open>
  Python strings are modelled as \<^typ>\<open>string\<close>, one \<^typ>\<open>char\<close> per code point, for the
  code points 0..255 (Latin-1).  The character classes below are those of Python 3 on that
  range: \<open>str.isalnum\<close>, \<open>str.isspace\<close> (also the class \<open>\s\<close> of \<open>re\<close>), \<open>str.lower\<close>
  and the class \<open>\w\<close> of \<open>re\<close>.
\<close>

definition in_range :: "nat \<Rightarrow> nat \<Rightarrow> char \<Rightarrow> bool" where
  "in_range lo hi c = (lo \<le> of_char c \<and> of_char c \<le> (hi::nat))"

definition isalnum :: "char \<Rightarrow> bool" where
  "isalnum c = (in_range 48 57 c \<or> in_range 65 90 c \<or> in_range 97 122 c \<or>
     in_range 170 170 c \<or> in_range 178 179 c \<or> in_range 181 181 c \<or>
     in_range 185 186 c \<or> in_range 188 190 c \<or> in_range 192 214 c \<or>
     in_range 216 246 c \<or> in_range 248 255 c)"

definition isspace :: "char \<Rightarrow> bool" where
  "isspace c = (in_range 9 13 c \<or> in_range 28 32 c \<or> in_range 133 133 c \<or>
     in_range 160 160 c)"

definition is_word_char :: "char \<Rightarrow> bool" where
  "is_word_char c = (isalnum c \<or> c = CHR ''_'')"

definition lower :: "char \<Rightarrow> char" where
  "lower c = (if in_range 65 90 c \<or> in_range 192 214 c \<or> in_range 216 222 c
              then char_of (of_char c + (32::nat)) else c)"

text \<open>\<open>sep.join(xs)\<close>.\<close>

fun join :: "string \<Rightarrow> string list \<Rightarrow> string" where
  "join sep [] = []"
| "join sep [x] = x"
| "join sep (x # y # ys) = x @ sep @ join sep (y # ys)"

text \<open>\<open>str(n)\<close> for an integer: its decimal representation.\<close>

fun str_nat :: "nat \<Rightarrow> string" where
  "str_nat n = (if n < 10 then [char_of (48 + n)]
                else str_nat (n div 10) @ [char_of (48 + n mod 10)])"

declare str_nat.simps [simp del]

definition str_int :: "int \<Rightarrow> string" where
  "str_int i = (if i < 0 then CHR ''-'' # str_nat (nat (- i)) else str_nat (nat i))"

text \<open>
  The values that occur in chunk metadata and references: \<open>None\<close>, a string or an integer.
  \<open>py_str\<close> is Python's \<open>str(v)\<close>, \<open>truthy\<close> is the truth value of \<open>v\<close> in a condition.
\<close>

datatype pyval = PNone | PStr string | PInt int

fun py_str :: "pyval \<Rightarrow> string" where
  "py_str PNone = ''None''"
| "py_str (PStr s) = s"
| "py_str (PInt i) = str_int i"

fun truthy :: "pyval \<Rightarrow> bool" where
  "truthy PNone = False"
| "truthy (PStr s) = (s \<noteq> [])"
| "truthy (PInt i) = (i \<noteq> 0)"

section \<open>UsedMap: the session ledger (modules/rag/used\_map.py)\<close>

text \<open>
  A persisted ledger file either parses to a dictionary from reference keys to
  collections of range strings, or makes \<open>json.load\<close> (or the conversion that follows it)
  raise.  The file system is a map from paths to ledger files.
\<close>

datatype ledger_file = Ledger "string \<rightharpoonup> string set" | Malformed

type_synonym ledger_fs = "string \<rightharpoonup> ledger_file"

record UsedMap =
  storage_dir :: string
  active_translation_id :: "string option"
  used_maps :: "string \<rightharpoonup> (string \<rightharpoonup> string set)"

text \<open>\<open>UsedMap.__init__\<close>: no active session, no maps.\<close>

definition new_UsedMap :: "string \<Rightarrow> UsedMap" where
  "new_UsedMap dir = \<lparr>storage_dir = dir, active_translation_id = None, used_maps = Map.empty\<rparr>"

text \<open>\<open>os.path.join\<close> of two components (POSIX).\<close>

definition path_join :: "string \<Rightarrow> string \<Rightarrow> string" where
  "path_join a b = (if b \<noteq> [] \<and> hd b = CHR ''/'' then b
                    else if a = [] \<or> last a = CHR ''/'' then a @ b
                    else a @ ''/'' @ b)"

definition get_filepath :: "UsedMap \<Rightarrow> string \<Rightarrow> string" where
  "get_filepath um translation_id = path_join (storage_dir um) (translation_id @ ''_used_map.json'')"

text \<open>
  \<open>load\<close>: sets the active id, then takes the map from the file when it exists and parses,
  and an empty map when the file is missing or malformed.
\<close>

definition load :: "string \<Rightarrow> ledger_fs \<Rightarrow> UsedMap \<Rightarrow> UsedMap" where
  "load translation_id fs um =
     (let um1 = um\<lparr>active_translation_id := Some translation_id\<rparr> in
      case fs (get_filepath um translation_id) of
        Some (Ledger data) \<Rightarrow> um1\<lparr>used_maps := (used_maps um1)(translation_id \<mapsto> data)\<rparr>
      | Some Malformed \<Rightarrow> um1\<lparr>used_maps := (used_maps um1)(translation_id \<mapsto> Map.empty)\<rparr>
      | None \<Rightarrow> um1\<lparr>used_maps := (used_maps um1)(translation_id \<mapsto> Map.empty)\<rparr>)"

text \<open>
  \<open>tid = translation_id or self.active_translation_id\<close>, followed by \<open>if not tid\<close>:
  the id in force, if there is a non-empty one.
\<close>

definition tid_or_active :: "string option \<Rightarrow> UsedMap \<Rightarrow> string option" where
  "tid_or_active translation_id um =
     (case translation_id of
        Some t \<Rightarrow> (if t \<noteq> [] then Some t else
                    (case active_translation_id um of
                       Some a \<Rightarrow> (if a \<noteq> [] then Some a else None)
                     | None \<Rightarrow> None))
      | None \<Rightarrow> (case active_translation_id um of
                   Some a \<Rightarrow> (if a \<noteq> [] then Some a else None)
                 | None \<Rightarrow> None))"

text \<open>\<open>self.used_maps.get(tid, {})\<close>.\<close>

definition map_for :: "UsedMap \<Rightarrow> string \<Rightarrow> (string \<rightharpoonup> string set)" where
  "map_for um tid = (case used_maps um tid of None \<Rightarrow> Map.empty | Some m \<Rightarrow> m)"

text \<open>\<open>save\<close>: writes the map of the id in force to its file; without an id it only logs.\<close>

definition save :: "string option \<Rightarrow> UsedMap \<Rightarrow> ledger_fs \<Rightarrow> ledger_fs" where
  "save translation_id um fs =
     (case tid_or_active translation_id um of
        None \<Rightarrow> fs
      | Some tid \<Rightarrow> fs(get_filepath um tid \<mapsto> Ledger (map_for um tid)))"

text \<open>A range is passed either as a string or as a list of integers.\<close>

datatype context_range = RangeStr string | RangeList "int list"

fun range_str :: "context_range \<Rightarrow> string" where
  "range_str (RangeList is) = join '','' (map str_int is)"
| "range_str (RangeStr s) = s"

definition mark_used :: "string \<Rightarrow> context_range \<Rightarrow> UsedMap \<Rightarrow> UsedMap" where
  "mark_used reference_key context_range um =
     (case tid_or_active None um of
        None \<Rightarrow> um
      | Some tid \<Rightarrow>
          (let context_str = range_str context_range;
               map_for_tid = map_for um tid;
               contexts = (case map_for_tid reference_key of None \<Rightarrow> {} | Some s \<Rightarrow> s)
           in um\<lparr>used_maps := (used_maps um)
                   (tid \<mapsto> map_for_tid(reference_key \<mapsto> insert context_str contexts))\<rparr>))"

definition was_used :: "string \<Rightarrow> context_range \<Rightarrow> UsedMap \<Rightarrow> bool" where
  "was_used reference_key context_range um =
     (case tid_or_active None um of
        None \<Rightarrow> False
      | Some tid \<Rightarrow>
          range_str context_range \<in>
            (case map_for um tid reference_key of None \<Rightarrow> {} | Some s \<Rightarrow> s))"

text \<open>What a ledger file records for a key and a range.\<close>

definition ledger_lists :: "ledger_file option \<Rightarrow> string \<Rightarrow> context_range \<Rightarrow> bool" where
  "ledger_lists f reference_key context_range =
     (case f of
        Some (Ledger data) \<Rightarrow>
          (case data reference_key of None \<Rightarrow> False | Some s \<Rightarrow> range_str context_range \<in> s)
      | Some Malformed \<Rightarrow> False
      | None \<Rightarrow> False)"

section \<open>Assembler: local re-validation (modules/translator/assembler.py)\<close>

text \<open>Python exceptions, as values: the class and its message.\<close>

datatype py_error = KeyError string | ValueError string | RuntimeError string | OtherError string

text \<open>
  An entry of the prompt structure is a dictionary; a key that is absent is \<open>None\<close> here.
  Quote options carry \<open>temp_id\<close> and \<open>text\<close>; the entry that \<open>translate_line\<close> stores under
  \<open>metadata\<close> carries only \<open>target_syllables\<close>.  The prompt structure keeps its keys in
  insertion order.
\<close>

record prompt_option =
  opt_temp_id :: "string option"
  opt_text :: "string option"
  opt_target_syllables :: "nat option"

type_synonym prompt_data = "(string \<times> prompt_option list) list"

text \<open>The dictionary returned on success: \<open>text\<close> and \<open>temp_ids\<close>.\<close>

record assembled =
  asm_text :: string
  asm_temp_ids :: "string list"

text \<open>The entries of \<open>all_quotes\<close>.\<close>

record mv_quote =
  q_temp_id :: string
  original :: string
  normalized :: string

text \<open>\<open>normalize_text\<close>: the alphanumeric characters, lower-cased.\<close>

definition normalize_text :: "string \<Rightarrow> string" where
  "normalize_text t = map lower (filter isalnum t)"

text \<open>
  Building \<open>all_quotes\<close>: \<open>quote["temp_id"]\<close> and \<open>quote["text"]\<close> raise \<open>KeyError\<close> on an
  entry without the key.
\<close>

fun collect_quotes :: "prompt_option list \<Rightarrow> py_error + mv_quote list" where
  "collect_quotes [] = Inr []"
| "collect_quotes (quote # quotes) =
     (case opt_temp_id quote of
        None \<Rightarrow> Inl (KeyError ''temp_id'')
      | Some tid \<Rightarrow>
          (case opt_text quote of
             None \<Rightarrow> Inl (KeyError ''text'')
           | Some t \<Rightarrow>
               (case collect_quotes quotes of
                  Inl e \<Rightarrow> Inl e
                | Inr rest \<Rightarrow>
                    Inr (\<lparr>q_temp_id = tid, original = t, normalized = normalize_text t\<rparr> # rest))))"

text \<open>\<open>all_quotes.sort(key=len(normalized), reverse=True)\<close>: stable, longest first.\<close>

definition sort_longest_first :: "mv_quote list \<Rightarrow> mv_quote list" where
  "sort_longest_first qs = sort_key (\<lambda>q. - int (length (normalized q))) qs"

text \<open>
  The inner loop: the first available quote that the remaining text starts with, and the
  available quotes without it.
\<close>

fun match_front :: "string \<Rightarrow> mv_quote list \<Rightarrow> (mv_quote \<times> mv_quote list) option" where
  "match_front remaining_text [] = None"
| "match_front remaining_text (quote # rest) =
     (if prefix (normalized quote) remaining_text then Some (quote, rest)
      else (case match_front remaining_text rest of
              None \<Rightarrow> None
            | Some (m, rest') \<Rightarrow> Some (m, quote # rest')))"

text \<open>
  The outer loop \<open>for position in range(3)\<close>, with the number of rounds left.  \<open>None\<close> is
  the early \<open>return False\<close>; otherwise the ids used and the text that remains.
\<close>

fun match_loop :: "nat \<Rightarrow> string \<Rightarrow> mv_quote list \<Rightarrow> string list \<Rightarrow> (string list \<times> string) option" where
  "match_loop 0 remaining_text available_quotes used_temp_ids = Some (used_temp_ids, remaining_text)"
| "match_loop (Suc n) remaining_text available_quotes used_temp_ids =
     (if remaining_text = [] then Some (used_temp_ids, remaining_text)
      else (case match_front remaining_text available_quotes of
              None \<Rightarrow> None
            | Some (quote, available') \<Rightarrow>
                match_loop n (drop (length (normalized quote)) remaining_text) available'
                  (used_temp_ids @ [q_temp_id quote])))"

text \<open>\<open>_mini_validate\<close>: \<open>Inr None\<close> is the result \<open>False\<close>.\<close>

definition mini_validate :: "string \<Rightarrow> prompt_data \<Rightarrow> py_error + assembled option" where
  "mini_validate assembled_line quote_data =
     (case collect_quotes (concat (map snd quote_data)) of
        Inl e \<Rightarrow> Inl e
      | Inr all_quotes \<Rightarrow>
          (case match_loop 3 (normalize_text assembled_line) (sort_longest_first all_quotes) [] of
             None \<Rightarrow> Inr None
           | Some (used_temp_ids, remaining_text) \<Rightarrow>
               (if remaining_text = []
                then Inr (Some \<lparr>asm_text = assembled_line, asm_temp_ids = used_temp_ids\<rparr>)
                else Inr None)))"

text \<open>
  The greedy, front-anchored matching as the specification words it: each matched
  candidate is still available, the remaining text starts with it, and no available
  candidate that the remaining text starts with is longer.
\<close>

fun greedy_from :: "string \<Rightarrow> mv_quote multiset \<Rightarrow> mv_quote list \<Rightarrow> bool" where
  "greedy_from remaining avail [] = True"
| "greedy_from remaining avail (q # qs) =
     (q \<in># avail \<and> prefix (normalized q) remaining \<and>
      (\<forall>q' \<in># avail. prefix (normalized q') remaining \<longrightarrow>
          length (normalized q') \<le> length (normalized q)) \<and>
      greedy_from (drop (length (normalized q)) remaining) (avail - {#q#}) qs)"


text \<open>A list of quotes in order of decreasing normalized length.\<close>

definition longest_first :: "mv_quote list \<Rightarrow> bool" where
  "longest_first qs = sorted (map (\<lambda>q. - int (length (normalized q))) qs)"

section \<open>Tokenization shared by the chunkers and the validator\<close>

definition apostrophe :: char where
  "apostrophe = CHR 0x27"

definition isalpha :: "char \<Rightarrow> bool" where
  "isalpha c = (in_range 65 90 c \<or> in_range 97 122 c \<or> in_range 170 170 c \<or>
     in_range 181 181 c \<or> in_range 186 186 c \<or> in_range 192 214 c \<or>
     in_range 216 246 c \<or> in_range 248 255 c)"

text \<open>\<open>str.strip()\<close>.\<close>

definition strip :: "string \<Rightarrow> string" where
  "strip s = rev (dropWhile isspace (rev (dropWhile isspace s)))"

text \<open>
  \<open>_normalize_quotes\<close> replaces the code points U+2018, U+2019, U+201C and U+201D.  None
  of them is among the code points 0..255 that \<^typ>\<open>string\<close> holds here, so on the
  modelled strings it replaces nothing.
\<close>

definition normalize_quotes :: "string \<Rightarrow> string" where
  "normalize_quotes line = line"

text \<open>
  The fallback tokenizer \<open>re.findall(r"\b\w[\w']*\b", line)\<close>: a match starts at a word
  character that follows a non-word character, takes the longest run of word characters
  and apostrophes, and gives back the apostrophes at its end, so that it ends at a word
  boundary.  \<open>cur\<close> is the run read so far.
\<close>

definition flush_word :: "string \<Rightarrow> string list" where
  "flush_word cur =
     (if cur = [] then [] else [rev (dropWhile (\<lambda>c. c = apostrophe) (rev cur))])"

fun regex_words_from :: "string \<Rightarrow> string \<Rightarrow> string list" where
  "regex_words_from cur [] = flush_word cur"
| "regex_words_from cur (c # cs) =
     (if is_word_char c \<or> (c = apostrophe \<and> cur \<noteq> [])
      then regex_words_from (cur @ [c]) cs
      else flush_word cur @ regex_words_from [] cs)"

definition regex_words :: "string \<Rightarrow> string list" where
  "regex_words line = regex_words_from [] line"

text \<open>
  The external tokenizer.  A token of a spaCy document has a text, a part-of-speech tag
  and the flags \<open>is_punct\<close> and \<open>is_space\<close>; a token of the document also has its subtree,
  a sequence of tokens of the document.  \<open>nlp\<close> returns the document of a text, or \<open>None\<close>
  when the call raises; \<open>SPACY_AVAILABLE\<close> tells whether the model was loaded at all.
\<close>

record spacy_token =
  tok_text :: string
  tok_pos :: string
  is_punct :: bool
  is_space :: bool

record doc_token =
  tok :: spacy_token
  subtree :: "spacy_token list"

record nlp_env =
  SPACY_AVAILABLE :: bool
  nlp :: "string \<Rightarrow> doc_token list option"

text \<open>
  \<open>_process_line_with_spacy\<close> returns either spaCy tokens or, from the fallback, plain
  words.
\<close>

datatype tokens = Words "string list" | Tokens "spacy_token list"

definition is_word_token :: "spacy_token \<Rightarrow> bool" where
  "is_word_token t = (\<not> is_punct t \<and> \<not> is_space t)"

definition process_line_with_spacy :: "nlp_env \<Rightarrow> string \<Rightarrow> tokens" where
  "process_line_with_spacy env line =
     (if \<not> SPACY_AVAILABLE env then Words (regex_words line)
      else (case nlp env (normalize_quotes line) of
              None \<Rightarrow> Words (regex_words (normalize_quotes line))
            | Some doc \<Rightarrow> Tokens (filter is_word_token (map tok doc))))"

text \<open>
  The callers' projection \<open>if SPACY_AVAILABLE and all(hasattr(t, 'text') ...)\<close>: the texts
  and tags of tokens, the words themselves and blank tags otherwise.
\<close>

fun words_of :: "tokens \<Rightarrow> string list" where
  "words_of (Words ws) = ws"
| "words_of (Tokens ts) = map tok_text ts"

fun pos_of :: "tokens \<Rightarrow> string list" where
  "pos_of (Words ws) = replicate (length ws) []"
| "pos_of (Tokens ts) = map tok_pos ts"

text \<open>\<open>_count_syllables\<close>: the number of vowel groups \<open>[aeiouy]+\<close>, with two special cases.\<close>

fun vowel_groups :: "bool \<Rightarrow> string \<Rightarrow> nat" where
  "vowel_groups in_group [] = 0"
| "vowel_groups in_group (c # cs) =
     (if c \<in> set ''aeiouy''
      then (if in_group then 0 else 1) + vowel_groups True cs
      else vowel_groups False cs)"

definition count_syllables :: "string \<Rightarrow> nat" where
  "count_syllables word =
     (if \<not> list_ex isalpha word then 0
      else (let w = map lower word in
            if length w \<le> 3 then 1
            else max 1 (vowel_groups False (if last w = CHR ''e'' then butlast w else w))))"

section \<open>Word-index ranges\<close>

text \<open>
  A chunk stores its range as the string \<open>f"{start},{end}"\<close>.  \<open>py_int\<close> is Python's
  \<open>int(s)\<close> on a string (\<open>None\<close> for \<open>ValueError\<close>): surrounding whitespace, a sign, and
  decimal digits that single underscores may separate.
\<close>

definition format_word_index :: "int \<Rightarrow> int \<Rightarrow> string" where
  "format_word_index start end = str_int start @ '','' @ str_int end"

definition int_space :: "char \<Rightarrow> bool" where
  "int_space c = (in_range 9 13 c \<or> in_range 32 32 c \<or> in_range 133 133 c \<or>
     in_range 160 160 c)"

fun parse_digits :: "nat \<Rightarrow> bool \<Rightarrow> string \<Rightarrow> nat option" where
  "parse_digits acc after_digit [] = (if after_digit then Some acc else None)"
| "parse_digits acc after_digit (c # cs) =
     (if c = CHR ''_'' then (if after_digit then parse_digits acc False cs else None)
      else if in_range 48 57 c then parse_digits (10 * acc + (of_char c - 48)) True cs
      else None)"

definition py_int :: "string \<Rightarrow> int option" where
  "py_int s =
     (case rev (dropWhile int_space (rev (dropWhile int_space s))) of
        [] \<Rightarrow> None
      | c # cs \<Rightarrow>
          (if c = CHR ''-'' then map_option (\<lambda>n. - int n) (parse_digits 0 False cs)
           else if c = CHR ''+'' then map_option int (parse_digits 0 False cs)
           else map_option int (parse_digits 0 False (c # cs))))"

text \<open>\<open>s.split(sep)\<close> for a separator of one character; \<open>cur\<close> is the piece read so far.\<close>

fun split_from :: "char \<Rightarrow> string \<Rightarrow> string \<Rightarrow> string list" where
  "split_from sep cur [] = [cur]"
| "split_from sep cur (c # cs) =
     (if c = sep then cur # split_from sep [] cs else split_from sep (cur @ [c]) cs)"

definition py_split :: "char \<Rightarrow> string \<Rightarrow> string list" where
  "py_split sep s = split_from sep [] s"

text \<open>\<open>start, end = map(int, word_index.split(","))\<close>; \<open>None\<close> when this raises.\<close>

definition parse_word_index :: "string \<Rightarrow> (int \<times> int) option" where
  "parse_word_index word_index =
     (case py_split CHR '','' word_index of
        [a, b] \<Rightarrow> (case py_int a of
                     None \<Rightarrow> None
                   | Some start \<Rightarrow> (case py_int b of
                                      None \<Rightarrow> None
                                    | Some end \<Rightarrow> Some (start, end)))
      | _ \<Rightarrow> None)"

section \<open>Chunks (modules/chunking)\<close>

text \<open>
  A line chunk as the chunkers read it: \<open>text\<close> and \<open>chunk_id\<close> are read with \<open>[...]\<close>, the
  other keys with \<open>.get\<close>, so these may be absent (\<open>None\<close> here).
\<close>

record line_chunk =
  lc_text :: string
  lc_chunk_id :: pyval
  lc_title :: "pyval option"
  lc_line :: "pyval option"
  lc_act :: "pyval option"
  lc_scene :: "pyval option"
  lc_mood :: "pyval option"

text \<open>\<open>d.get(key, default)\<close> and \<open>d.get(key)\<close>.\<close>

definition get_or :: "'a option \<Rightarrow> 'a \<Rightarrow> 'a" where
  "get_or v d = (case v of None \<Rightarrow> d | Some x \<Rightarrow> x)"

definition get_none :: "pyval option \<Rightarrow> pyval" where
  "get_none v = get_or v PNone"

text \<open>The keys that phrase chunks and fragment chunks share, then those of each.\<close>

record chunk_meta =
  chunk_id :: string
  source_chunk_id :: pyval
  title :: pyval
  line :: pyval
  act :: pyval
  scene :: pyval
  chunk_text :: string
  word_index :: string
  syllables :: nat
  POS :: "string list"
  mood :: pyval
  word_count :: nat

record phrase_chunk = chunk_meta +
  phrase_position :: nat
  total_phrases_in_line :: nat
  ends_with_punctuation :: bool

record fragment_chunk = chunk_meta +
  fragment_position :: nat
  total_fragments_in_line :: "nat option"

text \<open>The word indices that a chunk covers, read back from its \<open>word_index\<close>.\<close>

definition chunk_indices :: "'a chunk_meta_scheme \<Rightarrow> nat set" where
  "chunk_indices c =
     (case parse_word_index (word_index c) of
        None \<Rightarrow> {}
      | Some (start, end) \<Rightarrow> set (map nat [max 0 start..end]))"

text \<open>
  The alignment search: the first \<open>i\<close> in \<open>range(len(token_words) - len(words) + 1)\<close> with
  \<open>token_words[i:i+len(words)] == words\<close>.
\<close>

definition find_slice :: "string list \<Rightarrow> string list \<Rightarrow> nat option" where
  "find_slice token_words ws =
     List.find (\<lambda>i. take (length ws) (drop i token_words) = ws)
       [0..<Suc (length token_words) - length ws]"

text \<open>\<open>any(idx in used_indices for idx in range(a, b))\<close>.\<close>

definition overlaps :: "nat set \<Rightarrow> nat \<Rightarrow> nat \<Rightarrow> bool" where
  "overlaps used_indices a b = list_ex (\<lambda>idx. idx \<in> used_indices) [a..<b]"

subsection \<open>PhraseChunker\<close>

text \<open>\<open>phrase_pattern.split(line_text)\<close> for the pattern \<open>([.!?;:])\<close> with its group.\<close>

definition is_phrase_punct :: "char \<Rightarrow> bool" where
  "is_phrase_punct c = (c \<in> set ''.!?;:'')"

fun pattern_split_from :: "string \<Rightarrow> string \<Rightarrow> string list" where
  "pattern_split_from cur [] = [cur]"
| "pattern_split_from cur (c # cs) =
     (if is_phrase_punct c then cur # [c] # pattern_split_from [] cs
      else pattern_split_from (cur @ [c]) cs)"

text \<open>
  The \<open>while\<close> loop over \<open>major_parts\<close>: a part is joined with the delimiter after it; a
  part without one is kept when it is not blank.
\<close>

fun join_major_parts :: "string list \<Rightarrow> string list" where
  "join_major_parts [] = []"
| "join_major_parts [p] = (if strip p \<noteq> [] then [p] else [])"
| "join_major_parts (p # d # rest) =
     (if d \<noteq> [] \<and> is_phrase_punct (hd d) then (p @ d) # join_major_parts rest
      else (if strip p \<noteq> [] then [p] else []) @ join_major_parts (d # rest))"

text \<open>The loop over \<open>comma_parts\<close>: every part but the last gets its comma back.\<close>

fun comma_phrases :: "string list \<Rightarrow> string list" where
  "comma_phrases [] = []"
| "comma_phrases [part] = (if strip part \<noteq> [] then [strip part] else [])"
| "comma_phrases (part # others) =
     (if strip part \<noteq> [] then [strip part @ '',''] else []) @ comma_phrases others"

definition final_phrases :: "string \<Rightarrow> string list" where
  "final_phrases line_text =
     concat (map (\<lambda>phrase. comma_phrases (py_split CHR '','' phrase))
               (join_major_parts (pattern_split_from [] line_text)))"

text \<open>
  The loop over \<open>final_phrases\<close> for one line, from the phrase at position \<open>phrase_idx\<close> on:
  a phrase of fewer than three words, one that does not align, and one whose first
  alignment overlaps a used index are skipped.
\<close>

fun phrase_loop ::
  "nlp_env \<Rightarrow> line_chunk \<Rightarrow> string list \<Rightarrow> string list \<Rightarrow> nat \<Rightarrow>
   nat \<Rightarrow> string list \<Rightarrow> nat set \<Rightarrow> phrase_chunk list" where
  "phrase_loop env lc token_words token_pos n_phrases phrase_idx [] used_indices = []"
| "phrase_loop env lc token_words token_pos n_phrases phrase_idx (phrase # rest) used_indices =
     (let phrase_words = words_of (process_line_with_spacy env phrase) in
      if length phrase_words < 3
      then phrase_loop env lc token_words token_pos n_phrases (Suc phrase_idx) rest used_indices
      else
        (case find_slice token_words phrase_words of
           None \<Rightarrow>
             phrase_loop env lc token_words token_pos n_phrases (Suc phrase_idx) rest used_indices
         | Some i \<Rightarrow>
             (let phrase_start = i; phrase_end = i + length phrase_words - 1 in
              if overlaps used_indices phrase_start (Suc phrase_end)
              then phrase_loop env lc token_words token_pos n_phrases (Suc phrase_idx) rest
                     used_indices
              else
                \<lparr>chunk_id = ''phrase_'' @ py_str (lc_chunk_id lc) @ ''_'' @ str_nat phrase_idx,
                  source_chunk_id = lc_chunk_id lc,
                  title = get_or (lc_title lc) (PStr ''Unknown''),
                  line = get_none (lc_line lc),
                  act = get_none (lc_act lc),
                  scene = get_none (lc_scene lc),
                  chunk_text = strip (join '' '' phrase_words),
                  word_index = format_word_index (int phrase_start) (int phrase_end),
                  syllables = sum_list (map count_syllables phrase_words),
                  POS = (if length token_pos > phrase_end
                         then take (Suc phrase_end - phrase_start) (drop phrase_start token_pos)
                         else []),
                  mood = get_or (lc_mood lc) (PStr ''neutral''),
                  word_count = length phrase_words,
                  phrase_position = phrase_idx,
                  total_phrases_in_line = n_phrases,
                  ends_with_punctuation = (phrase \<noteq> [] \<and> last phrase \<in> set ''.!?;:,'')\<rparr>
                # phrase_loop env lc token_words token_pos n_phrases (Suc phrase_idx) rest
                    (used_indices \<union> set [phrase_start..<Suc phrase_end]))))"

text \<open>The body of the loop over \<open>line_chunks\<close>: the phrase chunks of one line.\<close>

definition phrases_of_line :: "nlp_env \<Rightarrow> line_chunk \<Rightarrow> phrase_chunk list" where
  "phrases_of_line env lc =
     (let line_text = normalize_quotes (lc_text lc);
          tokens = process_line_with_spacy env line_text;
          phrases = final_phrases line_text
      in phrase_loop env lc (words_of tokens) (pos_of tokens) (length phrases) 0 phrases {})"

definition phrase_chunk_from_line_chunks :: "nlp_env \<Rightarrow> line_chunk list \<Rightarrow> phrase_chunk list" where
  "phrase_chunk_from_line_chunks env line_chunks = concat (map (phrases_of_line env) line_chunks)"

subsection \<open>FragmentChunker\<close>

text \<open>The chunk that both strategies build, before its total is known.\<close>

definition make_fragment ::
  "line_chunk \<Rightarrow> nat \<Rightarrow> string list \<Rightarrow> string list \<Rightarrow> int \<Rightarrow> int \<Rightarrow> fragment_chunk" where
  "make_fragment lc fragment_idx ws fragment_pos start end =
     \<lparr>chunk_id = ''fragment_'' @ py_str (lc_chunk_id lc) @ ''_'' @ str_nat fragment_idx,
       source_chunk_id = lc_chunk_id lc,
       title = get_or (lc_title lc) (PStr ''Unknown''),
       line = get_none (lc_line lc),
       act = get_none (lc_act lc),
       scene = get_none (lc_scene lc),
       chunk_text = strip (join '' '' ws),
       word_index = format_word_index start end,
       syllables = sum_list (map count_syllables ws),
       POS = fragment_pos,
       mood = get_or (lc_mood lc) (PStr ''neutral''),
       word_count = length ws,
       fragment_position = fragment_idx,
       total_fragments_in_line = None\<rparr>"

text \<open>
  The primary strategy, the loop over the tokens of the document: the chunks appended,
  and \<open>used_indices\<close> and \<open>fragment_idx\<close> after the loop.
\<close>

fun subtree_loop ::
  "line_chunk \<Rightarrow> nat \<Rightarrow> nat \<Rightarrow> string list \<Rightarrow> doc_token list \<Rightarrow> nat set \<Rightarrow> nat \<Rightarrow>
   fragment_chunk list \<times> nat set \<times> nat" where
  "subtree_loop lc min_words max_words token_words [] used_indices fragment_idx =
     ([], used_indices, fragment_idx)"
| "subtree_loop lc min_words max_words token_words (token # rest) used_indices fragment_idx =
     (let word_tokens = filter is_word_token (subtree token) in
      if length word_tokens < min_words \<or> length word_tokens > max_words
      then subtree_loop lc min_words max_words token_words rest used_indices fragment_idx
      else
        (let word_texts = map tok_text word_tokens in
         case find_slice token_words word_texts of
           None \<Rightarrow> subtree_loop lc min_words max_words token_words rest used_indices fragment_idx
         | Some i \<Rightarrow>
             (if overlaps used_indices i (i + length word_texts)
              then subtree_loop lc min_words max_words token_words rest used_indices
                     fragment_idx
              else
                (case subtree_loop lc min_words max_words token_words rest
                        (used_indices \<union> set [i..<i + length word_texts]) (Suc fragment_idx) of
                   (chunks, used', idx') \<Rightarrow>
                     (make_fragment lc fragment_idx word_texts (map tok_pos word_tokens)
                        (int i) (int i + int (length word_texts) - 1) # chunks,
                      used', idx')))))"

text \<open>
  The fallback, the loop \<open>while i <= len(line_tokens) - min_words\<close> over the positions
  \<open>i\<close>: at each, the first window size from \<open>max_words\<close> down to \<open>min_words\<close> that fits in
  the line and overlaps no used index; \<open>i\<close> advances by one in every round.
\<close>

definition window_sizes :: "nat \<Rightarrow> nat \<Rightarrow> nat list" where
  "window_sizes min_words max_words = rev [min_words..<Suc max_words]"

definition window_positions :: "nat \<Rightarrow> nat \<Rightarrow> nat list" where
  "window_positions n min_words = (if min_words \<le> n then [0..<Suc (n - min_words)] else [])"

fun window_loop ::
  "line_chunk \<Rightarrow> nat \<Rightarrow> nat \<Rightarrow> string list \<Rightarrow> string list \<Rightarrow> nat list \<Rightarrow> nat set \<Rightarrow> nat \<Rightarrow>
   fragment_chunk list" where
  "window_loop lc min_words max_words token_words pos_tags [] used_indices fragment_idx = []"
| "window_loop lc min_words max_words token_words pos_tags (i # others) used_indices fragment_idx =
     (case List.find (\<lambda>window_size. \<not> i + window_size > length token_words \<and>
                         \<not> overlaps used_indices i (i + window_size))
             (window_sizes min_words max_words) of
        None \<Rightarrow>
          window_loop lc min_words max_words token_words pos_tags others used_indices fragment_idx
      | Some window_size \<Rightarrow>
          make_fragment lc fragment_idx (take window_size (drop i token_words))
            (if i + window_size \<le> length pos_tags then take window_size (drop i pos_tags)
             else replicate window_size [])
            (int i) (int i + int window_size - 1)
          # window_loop lc min_words max_words token_words pos_tags others
              (used_indices \<union> set [i..<i + window_size]) (Suc fragment_idx))"

text \<open>
  The body of the loop over \<open>line_chunks\<close>: the fragment chunks of one line.  The call
  \<open>nlp(line_text)\<close> is not guarded here, so its exception leaves the function.  An empty
  document is false in \<open>if SPACY_AVAILABLE and line_doc\<close>.
\<close>

definition line_tokens_of :: "nlp_env \<Rightarrow> doc_token list option \<Rightarrow> string \<Rightarrow> tokens" where
  "line_tokens_of env line_doc line_text =
     (case line_doc of
        Some (t # ts) \<Rightarrow>
          (if SPACY_AVAILABLE env then Tokens (filter is_word_token (map tok (t # ts)))
           else Words (regex_words line_text))
      | _ \<Rightarrow> Words (regex_words line_text))"

definition fragments_with_doc ::
  "nlp_env \<Rightarrow> nat \<Rightarrow> nat \<Rightarrow> line_chunk \<Rightarrow> doc_token list option \<Rightarrow> fragment_chunk list" where
  "fragments_with_doc env min_words max_words lc line_doc =
     (let line_text = normalize_quotes (lc_text lc);
          line_tokens = line_tokens_of env line_doc line_text;
          token_words = words_of line_tokens;
          pos_tags = pos_of line_tokens
      in case (if SPACY_AVAILABLE env
               then subtree_loop lc min_words max_words token_words
                      (case line_doc of None \<Rightarrow> [] | Some doc \<Rightarrow> doc) {} 0
               else ([], {}, 0)) of
           (chunks, used_indices, fragment_idx) \<Rightarrow>
             (if fragment_idx = 0
              then chunks @ window_loop lc min_words max_words token_words pos_tags
                              (window_positions (length token_words) min_words)
                              used_indices fragment_idx
              else chunks))"

definition fragments_of_line ::
  "nlp_env \<Rightarrow> nat \<Rightarrow> nat \<Rightarrow> line_chunk \<Rightarrow> py_error + fragment_chunk list" where
  "fragments_of_line env min_words max_words lc =
     (if SPACY_AVAILABLE env
      then (case nlp env (normalize_quotes (lc_text lc)) of
              None \<Rightarrow> Inl (OtherError ''nlp'')
            | Some doc \<Rightarrow> Inr (fragments_with_doc env min_words max_words lc (Some doc)))
      else Inr (fragments_with_doc env min_words max_words lc None))"

text \<open>The words of a line as the fragment chunker tokenizes it.\<close>

definition fragment_line_words :: "nlp_env \<Rightarrow> line_chunk \<Rightarrow> string list" where
  "fragment_line_words env lc =
     words_of (line_tokens_of env
        (if SPACY_AVAILABLE env then nlp env (normalize_quotes (lc_text lc)) else None)
        (normalize_quotes (lc_text lc)))"

text \<open>The loop over \<open>line_chunks\<close>; the first exception ends it.\<close>

fun fragment_lines ::
  "nlp_env \<Rightarrow> nat \<Rightarrow> nat \<Rightarrow> line_chunk list \<Rightarrow> py_error + fragment_chunk list" where
  "fragment_lines env min_words max_words [] = Inr []"
| "fragment_lines env min_words max_words (lc # others) =
     (case fragments_of_line env min_words max_words lc of
        Inl e \<Rightarrow> Inl e
      | Inr chunks \<Rightarrow>
          (case fragment_lines env min_words max_words others of
             Inl e \<Rightarrow> Inl e
           | Inr chunks' \<Rightarrow> Inr (chunks @ chunks')))"

text \<open>
  The final pass: \<open>line_to_count\<close> counts the chunks of each key
  \<open>(title, act, scene, line)\<close>, and every chunk gets the count of its key.
\<close>

definition line_key :: "'a chunk_meta_scheme \<Rightarrow> pyval \<times> pyval \<times> pyval \<times> pyval" where
  "line_key c = (title c, act c, scene c, line c)"

definition line_to_count :: "fragment_chunk list \<Rightarrow> pyval \<times> pyval \<times> pyval \<times> pyval \<Rightarrow> nat" where
  "line_to_count chunks key = length (filter (\<lambda>c. line_key c = key) chunks)"

definition update_totals :: "fragment_chunk list \<Rightarrow> fragment_chunk list" where
  "update_totals chunks =
     map (\<lambda>c. c\<lparr>total_fragments_in_line := Some (line_to_count chunks (line_key c))\<rparr>) chunks"

text \<open>\<open>chunk_from_line_chunks\<close> sets \<open>max_words\<close> to 6 whatever the constructor was given.\<close>

definition fragment_chunk_from_line_chunks ::
  "nlp_env \<Rightarrow> nat \<Rightarrow> line_chunk list \<Rightarrow> py_error + fragment_chunk list" where
  "fragment_chunk_from_line_chunks env min_words line_chunks =
     (case fragment_lines env min_words 6 line_chunks of
        Inl e \<Rightarrow> Inl e
      | Inr chunks \<Rightarrow> Inr (update_totals chunks))"

section \<open>Predicates on chunk ranges\<close>

text \<open>No two chunks of a list share a word index.\<close>

fun disjoint_chunks :: "('a chunk_meta_scheme) list \<Rightarrow> bool" where
  "disjoint_chunks [] = True"
| "disjoint_chunks (c # cs) =
     ((\<forall>d \<in> set cs. chunk_indices c \<inter> chunk_indices d = {}) \<and> disjoint_chunks cs)"

text \<open>What the chunks of a loop are like: a real range of the line, of the chunk's word count.\<close>

definition chunk_range_ok :: "nat \<Rightarrow> 'a chunk_meta_scheme \<Rightarrow> bool" where
  "chunk_range_ok n c =
     (\<exists>s. chunk_indices c = {s..<s + word_count c} \<and> s + word_count c \<le> n)"

text \<open>A chunk that avoids the used indices and whose word count is within the bounds.\<close>

definition chunk_fits :: "nat \<Rightarrow> nat \<Rightarrow> nat \<Rightarrow> nat set \<Rightarrow> 'a chunk_meta_scheme \<Rightarrow> bool" where
  "chunk_fits n min_words max_words used c =
     (chunk_indices c \<inter> used = {} \<and> chunk_range_ok n c \<and>
      min_words \<le> word_count c \<and> word_count c \<le> max_words)"


text \<open>
  The values that a fragment chunk takes from its line chunk for the key
  \<open>(title, act, scene, line)\<close> of the final pass, and the number of fragment chunks that
  the loop body creates for a line chunk.
\<close>

definition line_chunk_key :: "line_chunk \<Rightarrow> pyval \<times> pyval \<times> pyval \<times> pyval" where
  "line_chunk_key lc =
     (get_or (lc_title lc) (PStr ''Unknown''), get_none (lc_act lc), get_none (lc_scene lc),
      get_none (lc_line lc))"

definition fragments_created :: "nlp_env \<Rightarrow> nat \<Rightarrow> nat \<Rightarrow> line_chunk \<Rightarrow> nat" where
  "fragments_created env min_words max_words lc =
     (case fragments_of_line env min_words max_words lc of
        Inl e \<Rightarrow> 0
      | Inr chunks \<Rightarrow> length chunks)"

section \<open>Example inputs\<close>

text \<open>The environment in which spaCy could not be imported, and a line of the corpus.\<close>

definition fallback_env :: nlp_env where
  "fallback_env = \<lparr>SPACY_AVAILABLE = False, nlp = (\<lambda>line. None)\<rparr>"

definition hamlet_line :: line_chunk where
  "hamlet_line =
     \<lparr>lc_text = ''To be, or not to be, that is the question:'',
       lc_chunk_id = PStr ''chunk_1'',
       lc_title = Some (PStr ''HAMLET''), lc_line = Some (PInt 56),
       lc_act = Some (PStr ''III''), lc_scene = Some (PStr ''I''), lc_mood = None\<rparr>"

definition six_word_line :: line_chunk where
  "six_word_line =
     \<lparr>lc_text = ''To be, or not to be,'',
       lc_chunk_id = PStr ''chunk_2'',
       lc_title = Some (PStr ''HAMLET''), lc_line = Some (PInt 57),
       lc_act = Some (PStr ''III''), lc_scene = Some (PStr ''I''), lc_mood = None\<rparr>"

text \<open>Two line chunks that carry no title, act, scene or line.\<close>

definition untitled_lines :: "line_chunk list" where
  "untitled_lines =
     [\<lparr>lc_text = ''Now is the winter'', lc_chunk_id = PStr ''chunk_a'',
        lc_title = None, lc_line = None, lc_act = None, lc_scene = None, lc_mood = None\<rparr>,
      \<lparr>lc_text = ''of our discontent'', lc_chunk_id = PStr ''chunk_b'',
        lc_title = None, lc_line = None, lc_act = None, lc_scene = None, lc_mood = None\<rparr>]"

section \<open>Validator (modules/validation/validator.py)\<close>

text \<open>
  A reference and an entry of the ground-truth corpus are dictionaries; a key that is
  absent is \<open>None\<close> here, and \<open>get_or\<close> supplies the default that the code passes to \<open>.get\<close>.
\<close>

record reference =
  ref_temp_id :: "string option"
  ref_title :: "pyval option"
  ref_act :: "pyval option"
  ref_scene :: "pyval option"
  ref_line :: "pyval option"
  ref_word_index :: "pyval option"

record gt_entry =
  gt_title :: "pyval option"
  gt_act :: "pyval option"
  gt_scene :: "pyval option"
  gt_line :: "pyval option"
  gt_text :: "string option"

text \<open>\<open>re.sub(r'\s+', ' ', s)\<close>: every run of whitespace becomes one space.\<close>

fun collapse_ws :: "bool \<Rightarrow> string \<Rightarrow> string" where
  "collapse_ws in_run [] = []"
| "collapse_ws in_run (c # cs) =
     (if isspace c then (if in_run then [] else '' '') @ collapse_ws True cs
      else c # collapse_ws False cs)"

definition normalize_and_clean :: "string \<Rightarrow> string" where
  "normalize_and_clean t = strip (collapse_ws False (map lower (normalize_quotes t)))"

text \<open>\<open>_tokenize_line_for_validation\<close>: the words of the line with their indices.\<close>

definition tokenize_line_for_validation :: "nlp_env \<Rightarrow> string \<Rightarrow> (string \<times> nat) list" where
  "tokenize_line_for_validation env line_text =
     (let ws = words_of (process_line_with_spacy env line_text) in zip ws [0..<length ws])"

text \<open>The words whose index lies in the declared range.\<close>

definition words_in_range :: "(string \<times> nat) list \<Rightarrow> int \<Rightarrow> int \<Rightarrow> string list" where
  "words_in_range tokenized_line start end =
     map fst (filter (\<lambda>(word, idx). start \<le> int idx \<and> int idx \<le> end) tokenized_line)"

text \<open>The equivalence rules for a null or absent act or scene.\<close>

definition is_null :: "pyval \<Rightarrow> bool" where
  "is_null v = (v = PNone \<or> v = PStr [] \<or> v = PStr ''null'')"

definition field_match :: "pyval \<Rightarrow> pyval option \<Rightarrow> bool" where
  "field_match v entry_field =
     ((is_null v \<and> is_null (get_none entry_field)) \<or>
      py_str (get_none entry_field) = py_str v)"

definition entry_matches :: "pyval \<Rightarrow> pyval \<Rightarrow> pyval \<Rightarrow> pyval \<Rightarrow> gt_entry \<Rightarrow> bool" where
  "entry_matches title_v act_v scene_v line_num entry =
     (get_none (gt_title entry) = title_v \<and> field_match act_v (gt_act entry) \<and>
      field_match scene_v (gt_scene entry) \<and>
      py_str (get_none (gt_line entry)) = py_str line_num)"

text \<open>
  Finding the ground-truth entry of a reference: none without a title or a line, else the
  first entry of the corpus that matches.
\<close>

definition find_gt_entry :: "gt_entry list \<Rightarrow> reference \<Rightarrow> gt_entry option" where
  "find_gt_entry ground_truth ref =
     (let title_v = get_or (ref_title ref) (PStr []);
          act_v = get_or (ref_act ref) (PStr []);
          scene_v = get_or (ref_scene ref) (PStr []);
          line_num = get_or (ref_line ref) (PStr [])
      in if \<not> truthy title_v \<or> py_str line_num = [] then None
         else List.find (entry_matches title_v act_v scene_v line_num) ground_truth)"

text \<open>
  One round of the loop over the references: the fragment appended to
  \<open>extracted_fragments_gt\<close>, or \<open>None\<close> when the reference is dropped.  A \<open>word_index\<close> that
  is not a string, has no comma or does not parse makes the code log and go on (the
  \<open>TypeError\<close> and \<open>ValueError\<close> are caught); a false \<open>word_index\<close> takes the whole line.
\<close>

definition extract_fragment :: "nlp_env \<Rightarrow> gt_entry list \<Rightarrow> reference \<Rightarrow> string option" where
  "extract_fragment env ground_truth ref =
     (case find_gt_entry ground_truth ref of
        None \<Rightarrow> None
      | Some entry \<Rightarrow>
          (let word_index_v = get_or (ref_word_index ref) (PStr []) in
           if truthy word_index_v
           then (case word_index_v of
                   PStr s \<Rightarrow>
                     (case parse_word_index s of
                        None \<Rightarrow> None
                      | Some (start, end) \<Rightarrow>
                          (let fragment_words =
                                 words_in_range
                                   (tokenize_line_for_validation env
                                      (get_or (gt_text entry) [])) start end
                           in if fragment_words \<noteq> []
                              then Some (join '' '' fragment_words) else None))
                 | _ \<Rightarrow> None)
           else Some (get_or (gt_text entry) [])))"

definition validate_line :: "nlp_env \<Rightarrow> gt_entry list \<Rightarrow> string \<Rightarrow> reference list \<Rightarrow> bool" where
  "validate_line env ground_truth assembled_text references =
     (let extracted_fragments_gt = List.map_filter (extract_fragment env ground_truth) references
      in if extracted_fragments_gt = [] then False
         else
           (let normalized_fragments_gt = map normalize_and_clean extracted_fragments_gt;
                normalized_assembled = normalize_and_clean assembled_text;
                alpha_only_fragments_gt = map (filter isalnum) normalized_fragments_gt;
                alpha_only_assembled = filter isalnum normalized_assembled;
                expected_text_gt = join '' '' normalized_fragments_gt;
                expected_alpha_only_gt = concat alpha_only_fragments_gt
            in normalized_assembled = expected_text_gt \<or>
               alpha_only_assembled = expected_alpha_only_gt))"

section \<open>The failsafe result (modules/translator/translation\_manager.py)\<close>

text \<open>
  A candidate quote.  Its \<open>reference\<close> is meant to be a dictionary; \<open>None\<close> stands for a
  value that is not one, on which \<open>.get\<close> raises \<open>AttributeError\<close>.  Scores are distances;
  the floating-point numbers are idealized as rationals.
\<close>

record candidate_quote =
  cq_text :: string
  cq_reference :: "reference option"
  cq_score :: rat

text \<open>The dictionary that \<open>translate_line\<close> returns.\<close>

record translation =
  tr_text :: string
  tr_temp_ids :: "string list"
  tr_references :: "reference list"
  original_modern_line :: string
  search_type :: "string option"
  is_failsafe :: bool

text \<open>
  The state that a translation changes: the ledger and its files.  \<open>events\<close> is a history
  variable, absent from the source: it records, in order, every call of
  \<open>Validator.validate_line\<close> with its result and every call of \<open>UsedMap.mark_used\<close>.
\<close>

datatype event = Validated string "reference list" bool | Marked string "int list"

record world =
  used_map :: UsedMap
  files :: ledger_fs
  events :: "event list"

text \<open>\<open>f"{title}|{act if act is not None else 'NULL'}|{scene if ... else 'NULL'}|{line}"\<close>.\<close>

definition null_str :: "pyval \<Rightarrow> string" where
  "null_str v = (if v = PNone then ''NULL'' else py_str v)"

definition make_ref_key :: "reference \<Rightarrow> string" where
  "make_ref_key ref =
     py_str (get_or (ref_title ref) (PStr [])) @ ''|'' @
     null_str (get_or (ref_act ref) (PStr [])) @ ''|'' @
     null_str (get_or (ref_scene ref) (PStr [])) @ ''|'' @
     py_str (get_or (ref_line ref) (PStr []))"

text \<open>\<open>list(range(start, end + 1))\<close>.\<close>

definition py_range :: "int \<Rightarrow> int \<Rightarrow> int list" where
  "py_range start end = [start..end]"

text \<open>
  The word indices that the failsafe marks for a \<open>word_index\<close> string: a range
  \<open>start,end\<close>, or a single number; \<open>None\<close> when the parse raises \<open>ValueError\<close>.
\<close>

definition failsafe_word_indices :: "string \<Rightarrow> int list option" where
  "failsafe_word_indices word_index_str =
     (if CHR '','' \<in> set word_index_str
      then map_option (\<lambda>(start, end). py_range start end) (parse_word_index word_index_str)
      else map_option (\<lambda>i. [i]) (py_int (strip word_index_str)))"

text \<open>\<open>self.used_map.mark_used(ref_key, word_indices)\<close> and \<open>self.used_map.save()\<close>.\<close>

definition mark_world :: "string \<Rightarrow> int list \<Rightarrow> world \<Rightarrow> world" where
  "mark_world ref_key word_indices w =
     w\<lparr>used_map := mark_used ref_key (RangeList word_indices) (used_map w),
       events := events w @ [Marked ref_key word_indices]\<rparr>"

definition save_world :: "world \<Rightarrow> world" where
  "save_world w = w\<lparr>files := save None (used_map w) (files w)\<rparr>"

text \<open>
  \<open>_create_single_quote_result\<close> marks the quote's range used and saves the ledger
  (\<open>failsafe_mark\<close>), then returns the quote's text with its reference
  (\<open>failsafe_result\<close>); no validation takes place.
\<close>

definition failsafe_mark :: "reference \<Rightarrow> world \<Rightarrow> world" where
  "failsafe_mark ref w =
     (case get_or (ref_word_index ref) (PStr []) of
        PStr s \<Rightarrow>
          (if s \<noteq> []
           then (case failsafe_word_indices s of
                   None \<Rightarrow> w
                 | Some word_indices \<Rightarrow>
                     save_world (mark_world (make_ref_key ref) word_indices w))
           else w)
      | _ \<Rightarrow> w)"

definition failsafe_result :: "reference \<Rightarrow> candidate_quote \<Rightarrow> string \<Rightarrow> translation" where
  "failsafe_result ref quote modern_line =
     \<lparr>tr_text = cq_text quote,
       tr_temp_ids = [''failsafe_1''],
       tr_references =
         [\<lparr>ref_temp_id = Some ''failsafe_1'',
            ref_title = Some (get_or (ref_title ref) (PStr ''Unknown'')),
            ref_act = Some (get_or (ref_act ref) (PStr ''Unknown'')),
            ref_scene = Some (get_or (ref_scene ref) (PStr ''Unknown'')),
            ref_line = Some (get_or (ref_line ref) (PStr ''Unknown'')),
            ref_word_index = Some (get_or (ref_word_index ref) (PStr ''0,0''))\<rparr>],
       original_modern_line = modern_line,
       search_type = None,
       is_failsafe = True\<rparr>"

definition create_single_quote_result ::
  "candidate_quote \<Rightarrow> string \<Rightarrow> world \<Rightarrow> py_error + (translation \<times> world)" where
  "create_single_quote_result quote modern_line w =
     (case cq_reference quote of
        None \<Rightarrow> Inl (OtherError ''AttributeError'')
      | Some ref \<Rightarrow> Inr (failsafe_result ref quote modern_line, failsafe_mark ref w))"

text \<open>An example corpus of one line, and the line-level candidate made from it.\<close>

definition hamlet_corpus :: "gt_entry list" where
  "hamlet_corpus =
     [\<lparr>gt_title = Some (PStr ''HAMLET''), gt_act = Some (PStr ''III''),
        gt_scene = Some (PStr ''I''), gt_line = Some (PInt 56),
        gt_text = Some ''To be, or not to be, that is the question:''\<rparr>]"

definition hamlet_reference :: reference where
  "hamlet_reference =
     \<lparr>ref_temp_id = None, ref_title = Some (PStr ''HAMLET''),
       ref_act = Some (PStr ''III''), ref_scene = Some (PStr ''I''),
       ref_line = Some (PInt 56), ref_word_index = Some (PStr ''0,9'')\<rparr>"

definition hamlet_quote :: candidate_quote where
  "hamlet_quote =
     \<lparr>cq_text = ''To be, or not to be, that is the question:'',
       cq_reference = Some hamlet_reference,
       cq_score = 1 / 4\<rparr>"

definition session_world :: world where
  "session_world =
     \<lparr>used_map = load ''t1'' Map.empty (new_UsedMap ''data/used_maps/''), files = Map.empty,
       events = []\<rparr>"




section \<open>Selector: diversity ranking (modules/translator/selector.py)\<close>

text \<open>\<open>str.split()\<close> without a separator: the runs of characters that are not whitespace.\<close>

fun py_words_from :: "string \<Rightarrow> string \<Rightarrow> string list" where
  "py_words_from cur [] = (if cur = [] then [] else [cur])"
| "py_words_from cur (c # cs) =
     (if isspace c then (if cur = [] then [] else [cur]) @ py_words_from [] cs
      else py_words_from (cur @ [c]) cs)"

definition py_words :: "string \<Rightarrow> string list" where
  "py_words s = py_words_from [] s"

text \<open>\<open>compute_similarity\<close>: the Jaccard overlap of the two sets of lower-cased words.\<close>

definition compute_similarity :: "string \<Rightarrow> string \<Rightarrow> rat" where
  "compute_similarity text1 text2 =
     (let words1 = set (py_words (map lower text1));
          words2 = set (py_words (map lower text2))
      in if words1 = {} \<or> words2 = {} then 0
         else of_nat (card (words1 \<inter> words2)) / of_nat (card (words1 \<union> words2)))"

text \<open>The inner loop over \<open>ranked_candidates\<close>, from \<open>max_similarity = 0.0\<close>.\<close>

definition max_similarity :: "candidate_quote \<Rightarrow> candidate_quote list \<Rightarrow> rat" where
  "max_similarity candidate ranked_candidates =
     fold (\<lambda>selected m. max m (compute_similarity (cq_text candidate) (cq_text selected)))
       ranked_candidates 0"

definition mmr_score :: "rat \<Rightarrow> candidate_quote list \<Rightarrow> candidate_quote \<Rightarrow> rat" where
  "mmr_score lambda_param ranked_candidates candidate =
     lambda_param * (1 / (1 + cq_score candidate))
       - (1 - lambda_param) * max_similarity candidate ranked_candidates"

text \<open>
  The loop over \<open>enumerate(remaining_candidates)\<close>, from position \<open>i\<close> on.  \<open>best\<close> is
  \<open>(max_mmr_score, max_mmr_idx)\<close>, with \<open>None\<close> for the initial \<open>(-inf, -1)\<close>; a candidate
  replaces it only with a strictly greater score.  The division raises when
  \<open>1.0 + score\<close> is zero.
\<close>

fun mmr_scan ::
  "rat \<Rightarrow> candidate_quote list \<Rightarrow> candidate_quote list \<Rightarrow> nat \<Rightarrow> (rat \<times> nat) option \<Rightarrow>
   py_error + (rat \<times> nat) option" where
  "mmr_scan lambda_param ranked [] i best = Inr best"
| "mmr_scan lambda_param ranked (candidate # rest) i best =
     (if 1 + cq_score candidate = 0 then Inl (OtherError ''ZeroDivisionError'')
      else
        (let mmr = mmr_score lambda_param ranked candidate in
         if (case best of None \<Rightarrow> True | Some (max_mmr_score, max_mmr_idx) \<Rightarrow> mmr > max_mmr_score)
         then mmr_scan lambda_param ranked rest (Suc i) (Some (mmr, i))
         else mmr_scan lambda_param ranked rest (Suc i) best))"

text \<open>
  The loop \<open>while remaining_candidates and len(ranked_candidates) < len(sorted_candidates)\<close>;
  \<open>n\<close> is \<open>len(sorted_candidates)\<close>.  \<open>pop\<close> raises on an index out of range.
\<close>

function mmr_loop ::
  "rat \<Rightarrow> nat \<Rightarrow> candidate_quote list \<Rightarrow> candidate_quote list \<Rightarrow>
   py_error + candidate_quote list" where
  "mmr_loop lambda_param n ranked remaining =
     (if remaining = [] \<or> \<not> length ranked < n then Inr ranked
      else
        (case mmr_scan lambda_param ranked remaining 0 None of
           Inl e \<Rightarrow> Inl e
         | Inr None \<Rightarrow> Inr ranked
         | Inr (Some (max_mmr_score, max_mmr_idx)) \<Rightarrow>
             (if max_mmr_idx < length remaining
              then mmr_loop lambda_param n (ranked @ [remaining ! max_mmr_idx])
                     (take max_mmr_idx remaining @ drop (Suc max_mmr_idx) remaining)
              else Inl (OtherError ''IndexError''))))"
  by pat_completeness auto
termination
  by (relation "measure (\<lambda>(lambda_param, n, ranked, remaining). n - length ranked)") auto

declare mmr_loop.simps [simp del]

text \<open>
  \<open>rank_candidates\<close>: \<open>mmr_lambda\<close> is the instance's value, used when \<open>lambda_param\<close> is
  \<open>None\<close>.  \<open>sorted(candidates, key=score)\<close> is stable.
\<close>

definition rank_candidates ::
  "rat \<Rightarrow> rat option \<Rightarrow> candidate_quote list \<Rightarrow> py_error + candidate_quote list" where
  "rank_candidates mmr_lambda lambda_param candidates =
     (let lam = (case lambda_param of None \<Rightarrow> mmr_lambda | Some l \<Rightarrow> l) in
      if candidates = [] then Inr []
      else
        (let sorted_candidates = sort_key cq_score candidates in
         if length sorted_candidates \<le> 1 then Inr sorted_candidates
         else mmr_loop lam (length sorted_candidates) [hd sorted_candidates]
                (tl sorted_candidates)))"

text \<open>Two candidates with the same text and the same score.\<close>

definition same_text_score :: "candidate_quote \<Rightarrow> candidate_quote \<Rightarrow> bool" where
  "same_text_score c c' = (cq_text c = cq_text c' \<and> cq_score c = cq_score c')"

text \<open>Three candidates; the last two tie in score and share no word with the first.\<close>

definition tied_candidates :: "candidate_quote list" where
  "tied_candidates =
     [\<lparr>cq_text = ''sweet sorrow'', cq_reference = None, cq_score = 1\<rparr>,
      \<lparr>cq_text = ''to be'', cq_reference = None, cq_score = 0\<rparr>,
      \<lparr>cq_text = ''fair is foul'', cq_reference = Some hamlet_reference, cq_score = 1\<rparr>]"

section \<open>TranslationManager.translate\_line (modules/translator/translation\_manager.py)\<close>

text \<open>
  Search results and the map from temporary ids to candidates are dictionaries with
  string keys, kept as association lists in insertion order.
\<close>

type_synonym selector_results = "(string \<times> candidate_quote list) list"

type_synonym temp_map = "(string \<times> candidate_quote) list"

text \<open>
  The manager: the validator's tokenizer and corpus, the session id, the configuration,
  and its collaborators.  Retrieval, prompt preparation and assembly are taken as
  arbitrary functions that return a value or raise (\<open>Inl\<close>); prompt preparation reads the
  ledger.  In one run of \<open>translate_line\<close> no collaborator is called twice with the same
  arguments.
\<close>

record manager =
  validator_env :: nlp_env
  validator_ground_truth :: "gt_entry list"
  translation_id :: "string option"
  default_search_mode :: string
  config_mmr_lambda :: rat
  hybrid_search :: "string \<Rightarrow> nat \<Rightarrow> py_error + selector_results"
  retrieve_all :: "string \<Rightarrow> nat \<Rightarrow> py_error + selector_results"
  prepare_prompt_structure ::
    "UsedMap \<Rightarrow> selector_results \<Rightarrow> nat \<Rightarrow> rat \<Rightarrow> py_error + (prompt_data \<times> temp_map)"
  assemble_line :: "string \<Rightarrow> prompt_data \<Rightarrow> nat \<Rightarrow> py_error + assembled option"

text \<open>
  A step that may raise returns the exception or its value, and in both cases the state
  it leaves behind.
\<close>

type_synonym 'a outcome = "(py_error + 'a) \<times> world"

text \<open>\<open>TranslationManager._count_syllables\<close>, over the words of a text.\<close>

definition count_syllables_text :: "string \<Rightarrow> nat" where
  "count_syllables_text t = sum_list (map count_syllables (py_words t))"

text \<open>\<open>d[key] = value\<close> on a dictionary in insertion order.\<close>

fun dict_set :: "string \<Rightarrow> 'v \<Rightarrow> (string \<times> 'v) list \<Rightarrow> (string \<times> 'v) list" where
  "dict_set k v [] = [(k, v)]"
| "dict_set k v ((k', v') # d) = (if k' = k then (k, v) # d else (k', v') # dict_set k v d)"

text \<open>\<open>sum(len(options) for options in prompt_structure.values())\<close>.\<close>

definition total_options :: "prompt_data \<Rightarrow> nat" where
  "total_options prompt_structure = sum_list (map (\<lambda>(form, options). length options) prompt_structure)"

text \<open>The candidates counted after the hybrid search, under the three keys if present.\<close>

definition total_candidates :: "selector_results \<Rightarrow> nat" where
  "total_candidates results =
     sum_list (map (\<lambda>k. case map_of results k of None \<Rightarrow> 0 | Some l \<Rightarrow> length l)
                 [''line'', ''phrases'', ''fragments''])"

text \<open>\<open>results["line"][0]\<close> when the key is present and its list is not empty.\<close>

definition top_line :: "selector_results \<Rightarrow> candidate_quote option" where
  "top_line results = (case map_of results ''line'' of Some (quote # others) \<Rightarrow> Some quote | _ \<Rightarrow> None)"

text \<open>
  The failsafe by a new search, as it stands in three places: \<open>retrieve_all\<close> with
  \<open>top_k=1\<close> and \<open>_create_single_quote_result\<close> inside one \<open>try\<close> whose handler only logs,
  followed by \<open>return None\<close>.
\<close>

definition search_failsafe :: "manager \<Rightarrow> string \<Rightarrow> world \<Rightarrow> translation option \<times> world" where
  "search_failsafe mgr modern_line w =
     (case retrieve_all mgr modern_line 1 of
        Inl e \<Rightarrow> (None, w)
      | Inr fallback_results \<Rightarrow>
          (case top_line fallback_results of
             None \<Rightarrow> (None, w)
           | Some quote \<Rightarrow>
               (case create_single_quote_result quote modern_line w of
                  Inl e \<Rightarrow> (None, w)
                | Inr (result, w') \<Rightarrow> (Some result, w'))))"

text \<open>
  The handler of the inner \<open>try\<close>: the top line of the results at hand, whose failsafe
  result is built outside any \<open>try\<close> of the handler, or else a new search.
\<close>

definition inner_handler ::
  "manager \<Rightarrow> string \<Rightarrow> selector_results \<Rightarrow> world \<Rightarrow> translation option outcome" where
  "inner_handler mgr modern_line results w =
     (case top_line results of
        Some quote \<Rightarrow>
          (case create_single_quote_result quote modern_line w of
             Inl e \<Rightarrow> (Inl e, w)
           | Inr (result, w') \<Rightarrow> (Inr (Some result), w'))
      | None \<Rightarrow> (case search_failsafe mgr modern_line w of (res, w') \<Rightarrow> (Inr res, w')))"

text \<open>STEP 6: the word indices of a \<open>word_index\<close> string, in the formats it accepts.\<close>

definition parse_range :: "char \<Rightarrow> string \<Rightarrow> int list option" where
  "parse_range sep s =
     (case py_split sep s of
        [a, b] \<Rightarrow> (case py_int a of
                     None \<Rightarrow> None
                   | Some start \<Rightarrow> (case py_int b of
                                      None \<Rightarrow> None
                                    | Some end \<Rightarrow> Some (py_range start end)))
      | _ \<Rightarrow> None)"

definition step6_word_indices :: "string \<Rightarrow> int list option" where
  "step6_word_indices word_index_str =
     (if CHR '','' \<in> set word_index_str then parse_range CHR '','' word_index_str
      else if CHR ''-'' \<in> set word_index_str then parse_range CHR ''-'' word_index_str
      else map_option (\<lambda>i. [i]) (py_int (strip word_index_str)))"

fun mark_references :: "reference list \<Rightarrow> world \<Rightarrow> world" where
  "mark_references [] w = w"
| "mark_references (ref # refs) w =
     mark_references refs
       (case get_or (ref_word_index ref) (PStr []) of
          PStr s \<Rightarrow>
            (if s \<noteq> []
             then (case step6_word_indices s of
                     None \<Rightarrow> w
                   | Some word_indices \<Rightarrow> mark_world (make_ref_key ref) word_indices w)
             else w)
        | _ \<Rightarrow> w)"

text \<open>STEP 7: the references of the result.\<close>

definition full_reference :: "string \<times> reference \<Rightarrow> reference" where
  "full_reference p =
     (case p of (cid, ref) \<Rightarrow>
        \<lparr>ref_temp_id = Some cid,
          ref_title = Some (get_or (ref_title ref) (PStr ''Unknown'')),
          ref_act = Some (get_or (ref_act ref) (PStr ''Unknown'')),
          ref_scene = Some (get_or (ref_scene ref) (PStr ''Unknown'')),
          ref_line = Some (get_or (ref_line ref) (PStr ''Unknown'')),
          ref_word_index = Some (get_or (ref_word_index ref) (PStr ''0,0''))\<rparr>)"

text \<open>
  STEPS 3 to 7, from the assembler's result on.  \<open>validate_line\<close> raises on a reference
  that is not a dictionary; the ledger is marked only in the branch where it returned
  true.
\<close>

definition finish_steps ::
  "manager \<Rightarrow> string \<Rightarrow> string \<Rightarrow> temp_map \<Rightarrow> assembled \<Rightarrow> world \<Rightarrow>
   translation option outcome" where
  "finish_steps mgr search_type_name modern_line tmap assembled_result w =
     (let assembled_text = strip (asm_text assembled_result);
          temp_ids_used = asm_temp_ids assembled_result
      in if assembled_text = [] \<or> temp_ids_used = []
         then (Inl (ValueError ''Missing text or temp_ids in assembler output''), w)
         else if list_ex (\<lambda>tid. map_of tmap tid = None) temp_ids_used
         then (Inl (ValueError ''Invalid temp_ids in result''), w)
         else
           (case those (map cq_reference (List.map_filter (map_of tmap) temp_ids_used)) of
              None \<Rightarrow> (Inl (OtherError ''AttributeError''), w)
            | Some references \<Rightarrow>
                (let validation_result =
                       validate_line (validator_env mgr) (validator_ground_truth mgr)
                         assembled_text references;
                     w1 = w\<lparr>events := events w
                             @ [Validated assembled_text references validation_result]\<rparr>
                 in if \<not> validation_result
                    then (Inl (ValueError ''Validator failed on assembled line''), w1)
                    else
                      (Inr (Some
                         \<lparr>tr_text = assembled_text,
                           tr_temp_ids = temp_ids_used,
                           tr_references = map full_reference (zip temp_ids_used references),
                           original_modern_line = modern_line,
                           search_type = Some search_type_name,
                           is_failsafe = False\<rparr>),
                       save_world (mark_references references w1)))))"

text \<open>
  STEP 1 when fewer than three options were counted: a wider search and a second
  preparation, any failure of which, or no option at all, raises \<open>ValueError\<close>.
\<close>

definition extended_search ::
  "manager \<Rightarrow> bool \<Rightarrow> string \<Rightarrow> world \<Rightarrow> py_error + (prompt_data \<times> temp_map)" where
  "extended_search mgr use_hybrid_search modern_line w =
     (case (if use_hybrid_search then hybrid_search mgr modern_line 25
            else retrieve_all mgr modern_line 20) of
        Inl e \<Rightarrow> Inl (ValueError ''Insufficient candidates after extended search'')
      | Inr extended_results \<Rightarrow>
          (case prepare_prompt_structure mgr (used_map w) extended_results 3 (3 / 5) of
             Inl e \<Rightarrow> Inl (ValueError ''Insufficient candidates after extended search'')
           | Inr (prompt_structure, tmap) \<Rightarrow>
               (if total_options prompt_structure < 1
                then Inl (ValueError ''Insufficient candidates after extended search'')
                else Inr (prompt_structure, tmap))))"

text \<open>
  The body of the inner \<open>try\<close>.  \<open>again\<close> is the call
  \<open>self.translate_line(modern_line, {}, use_hybrid_search=True)\<close>, made when the standard
  search could not assemble a line.
\<close>

definition main_steps ::
  "(world \<Rightarrow> translation option outcome) \<Rightarrow> manager \<Rightarrow> bool \<Rightarrow> string \<Rightarrow>
   selector_results \<Rightarrow> rat \<Rightarrow> world \<Rightarrow> translation option outcome" where
  "main_steps again mgr use_hybrid_search modern_line results mmr_lambda w =
     (case prepare_prompt_structure mgr (used_map w) results 3 mmr_lambda of
        Inl e \<Rightarrow> (Inl e, w)
      | Inr (prepared, tmap0) \<Rightarrow>
          (let prompt_structure0 =
                 dict_set ''metadata''
                   [\<lparr>opt_temp_id = None, opt_text = None,
                      opt_target_syllables = Some (count_syllables_text modern_line)\<rparr>]
                   prepared
           in case (if total_options prompt_structure0 < 3
                    then extended_search mgr use_hybrid_search modern_line w
                    else Inr (prompt_structure0, tmap0)) of
                Inl e \<Rightarrow> (Inl e, w)
              | Inr (prompt_structure, tmap) \<Rightarrow>
                  (case assemble_line mgr modern_line prompt_structure
                          (if use_hybrid_search then 0 else 1) of
                     Inl e \<Rightarrow> (Inl e, w)
                   | Inr None \<Rightarrow>
                       (if \<not> use_hybrid_search then again w
                        else (Inl (ValueError ''[HYBRID] Assembly failed, triggering failsafe''), w))
                   | Inr (Some assembled_result) \<Rightarrow>
                       finish_steps mgr (if use_hybrid_search then ''HYBRID'' else ''STANDARD'')
                         modern_line tmap assembled_result w)))"

text \<open>
  The initial hybrid search, made when hybrid search is on and no results were given:
  its results, or \<open>None\<close> when it raised or returned no candidate.
\<close>

definition initial_results ::
  "manager \<Rightarrow> bool \<Rightarrow> string \<Rightarrow> selector_results \<Rightarrow> selector_results option" where
  "initial_results mgr use_hybrid_search modern_line results =
     (if use_hybrid_search \<and> results = []
      then (case hybrid_search mgr modern_line 15 of
              Inl e \<Rightarrow> None
            | Inr found \<Rightarrow> (if total_candidates found = 0 then None else Some found))
      else Some results)"

text \<open>
  \<open>translate_line\<close> with its nested handlers: the inner handler gets every exception of
  the main steps, the outer one every exception of the inner handler.
\<close>

definition translate_line_with ::
  "(world \<Rightarrow> translation option outcome) \<Rightarrow> manager \<Rightarrow> bool option \<Rightarrow> string \<Rightarrow>
   selector_results \<Rightarrow> rat option \<Rightarrow> world \<Rightarrow> translation option outcome" where
  "translate_line_with again mgr use_hybrid_search modern_line results mmr_lambda w =
     (if get_or (translation_id mgr) [] = []
      then (Inl (RuntimeError ''Translation session not started. Call start_translation_session().''), w)
      else
        (let use_hybrid = (case use_hybrid_search of
                             None \<Rightarrow> default_search_mode mgr = ''hybrid''
                           | Some b \<Rightarrow> b);
             lam = get_or mmr_lambda (config_mmr_lambda mgr)
         in case initial_results mgr use_hybrid modern_line results of
              None \<Rightarrow> (case search_failsafe mgr modern_line w of (res, w') \<Rightarrow> (Inr res, w'))
            | Some results' \<Rightarrow>
                (case main_steps again mgr use_hybrid modern_line results' lam w of
                   (Inr res, w1) \<Rightarrow> (Inr res, w1)
                 | (Inl e, w1) \<Rightarrow>
                     (case inner_handler mgr modern_line results' w1 of
                        (Inr res, w2) \<Rightarrow> (Inr res, w2)
                      | (Inl e', w2) \<Rightarrow>
                          (case search_failsafe mgr modern_line w2 of
                             (res, w3) \<Rightarrow> (Inr res, w3))))))"

text \<open>
  The function calls itself once at most, with hybrid search on, and the hybrid run
  makes no further call: the recursion is unfolded to that depth.
\<close>

definition translate_line ::
  "manager \<Rightarrow> bool option \<Rightarrow> string \<Rightarrow> selector_results \<Rightarrow> rat option \<Rightarrow> world \<Rightarrow>
   translation option outcome" where
  "translate_line mgr use_hybrid_search modern_line results mmr_lambda w =
     translate_line_with
       (translate_line_with (\<lambda>w'. (Inr None, w')) mgr (Some True) modern_line [] None)
       mgr use_hybrid_search modern_line results mmr_lambda w"


definition new_events :: "world \<Rightarrow> world \<Rightarrow> event list" where
  "new_events w w' = drop (length (events w)) (events w')"

fun is_marked :: "event \<Rightarrow> bool" where
  "is_marked (Marked ref_key word_indices) = True"
| "is_marked (Validated assembled_text references ok) = False"





text \<open>
  The runs that return to the caller, by what they return: \<open>None\<close>, and nothing was
  marked; a failsafe result, marked once at most; or a result that is not a failsafe
  result, whose text the validator accepted with the references that were marked then.
\<close>

fun marks_key_of :: "reference list \<Rightarrow> event \<Rightarrow> bool" where
  "marks_key_of references (Marked ref_key word_indices) =
     (ref_key \<in> set (map make_ref_key references))"
| "marks_key_of references (Validated assembled_text references' ok) = False"

definition validated_trace :: "manager \<Rightarrow> translation \<Rightarrow> event list \<Rightarrow> bool" where
  "validated_trace mgr result trace =
     (case trace of
        Validated assembled_text references ok # marks \<Rightarrow>
          ok \<and> assembled_text = tr_text result \<and>
          validate_line (validator_env mgr) (validator_ground_truth mgr) assembled_text references \<and>
          list_all (marks_key_of references) marks
      | _ \<Rightarrow> False)"

definition settled :: "manager \<Rightarrow> translation option \<Rightarrow> event list \<Rightarrow> bool" where
  "settled mgr res trace =
     (case res of
        None \<Rightarrow> filter is_marked trace = []
      | Some result \<Rightarrow>
          (if is_failsafe result then length (filter is_marked trace) \<le> 1
           else validated_trace mgr result trace))"

definition run_ok :: "manager \<Rightarrow> world \<Rightarrow> translation option outcome \<Rightarrow> bool" where
  "run_ok mgr w out =
     (case out of
        (Inl e, w') \<Rightarrow> False
      | (Inr res, w') \<Rightarrow>
          events w' = events w @ new_events w w' \<and> settled mgr res (new_events w w'))"

text \<open>
  Managers over the example corpus.  The first two retrieve the line of the corpus and prepare
  a prompt with it; the assembler of the first never returns a line, that of the second
  returns the line's words.
\<close>

definition example_results :: selector_results where
  "example_results = [(''line'', [hamlet_quote]), (''phrases'', []), (''fragments'', [])]"

definition example_prompt :: "prompt_data \<times> temp_map" where
  "example_prompt =
     ([(''line'', [\<lparr>opt_temp_id = Some ''line_1'',
                     opt_text = Some ''To be, or not to be, that is the question:'',
                     opt_target_syllables = None\<rparr>]),
       (''phrases'', []), (''fragments'', [])],
      [(''line_1'', hamlet_quote)])"

definition stuck_manager :: manager where
  "stuck_manager =
     \<lparr>validator_env = fallback_env, validator_ground_truth = hamlet_corpus,
       translation_id = Some ''t1'', default_search_mode = ''normal'',
       config_mmr_lambda = 3 / 5,
       hybrid_search = (\<lambda>modern_line top_k. Inr example_results),
       retrieve_all = (\<lambda>modern_line top_k. Inr example_results),
       prepare_prompt_structure = (\<lambda>um results min_options lam. Inr example_prompt),
       assemble_line = (\<lambda>modern_line prompt_structure max_retries. Inr None)\<rparr>"


text \<open>A manager whose retrieval and prompt preparation raise.\<close>

definition raising_manager :: manager where
  "raising_manager =
     stuck_manager\<lparr>
       hybrid_search := (\<lambda>modern_line top_k. Inl (OtherError ''ConnectionError'')),
       retrieve_all := (\<lambda>modern_line top_k. Inl (OtherError ''ConnectionError'')),
       prepare_prompt_structure := (\<lambda>um results min_options lam. Inl (KeyError ''line''))\<rparr>"

section \<open>Properties of the ledger\<close>

lemma tid_or_active_load [simp]:
  "tid_or_active None (load tid fs um) = (if tid \<noteq> [] then Some tid else None)"
  by (simp add: tid_or_active_def load_def Let_def split: option.splits ledger_file.splits)

lemma tid_or_active_mark_used [simp]:
  "tid_or_active None (mark_used k r um) = tid_or_active None um"
  by (simp add: tid_or_active_def mark_used_def Let_def split: option.splits)

lemma storage_dir_mark_used [simp]: "storage_dir (mark_used k r um) = storage_dir um"
  by (simp add: mark_used_def Let_def split: option.splits)

lemma get_filepath_mark_used [simp]: "get_filepath (mark_used k r um) t = get_filepath um t"
  by (simp add: get_filepath_def)

lemma get_filepath_load [simp]: "get_filepath (load tid fs um) t = get_filepath um t"
  by (simp add: get_filepath_def load_def Let_def split: option.splits ledger_file.splits)

lemma was_used_after_mark:
  "tid_or_active None um = Some tid \<Longrightarrow> was_used k r (mark_used k r um)"
  by (simp add: was_used_def mark_used_def map_for_def Let_def tid_or_active_def
      split: option.splits if_splits)

lemma was_used_load:
  "was_used k r (load tid fs um) = (tid \<noteq> [] \<and> ledger_lists (fs (get_filepath um tid)) k r)"
  by (auto simp: was_used_def load_def map_for_def Let_def tid_or_active_def ledger_lists_def
      split: option.splits ledger_file.splits)

text \<open>
  Claim C5.  In a session loaded under a (non-empty) translation id, \<open>was_used(k, r)\<close>
  returns true after \<open>mark_used(k, r)\<close>.  Loading a session afterwards whose ledger file
  does not record the pair (the file is missing, malformed, or lists other ranges) makes
  \<open>was_used(k, r)\<close> return false; and loading from a file that does not exist gives the
  session an empty map.  \<open>load\<close>, \<open>mark_used\<close> and \<open>was_used\<close> have no raising path.
\<close>

theorem used_once_guarantee:
  assumes "tid \<noteq> []"
  shows "was_used k r (mark_used k r (load tid fs um)) \<and>
     (\<not> ledger_lists (fs2 (get_filepath um tid2)) k r \<longrightarrow>
        \<not> was_used k r (load tid2 fs2 (mark_used k r (load tid fs um)))) \<and>
     (fs2 (get_filepath um tid2) = None \<longrightarrow>
        used_maps (load tid2 fs2 (mark_used k r (load tid fs um))) tid2 = Some Map.empty \<and>
        active_translation_id (load tid2 fs2 (mark_used k r (load tid fs um))) = Some tid2)"
proof -
  have marked: "was_used k r (mark_used k r (load tid fs um))"
    using assms by (simp add: was_used_after_mark)
  have fresh: "\<not> was_used k r (load tid2 fs2 (mark_used k r (load tid fs um)))"
    if "\<not> ledger_lists (fs2 (get_filepath um tid2)) k r"
    using that by (simp add: was_used_load)
  have empty: "used_maps (load tid2 fs2 (mark_used k r (load tid fs um))) tid2 = Some Map.empty \<and>
        active_translation_id (load tid2 fs2 (mark_used k r (load tid fs um))) = Some tid2"
    if "fs2 (get_filepath um tid2) = None"
    using that by (simp add: load_def [of tid2] Let_def)
  from marked fresh empty show ?thesis by blast
qed

theorem used_once_guarantee_witness:
  "was_used ''Hamlet|III|I|56'' (RangeList [0, 1, 2])
     (mark_used ''Hamlet|III|I|56'' (RangeList [0, 1, 2])
        (load ''t1'' Map.empty (new_UsedMap ''data/used_maps/''))) \<and>
   \<not> was_used ''Hamlet|III|I|56'' (RangeList [0, 1, 2])
     (load ''t2'' Map.empty
        (mark_used ''Hamlet|III|I|56'' (RangeList [0, 1, 2])
           (load ''t1'' Map.empty (new_UsedMap ''data/used_maps/'')))) \<and>
   used_maps (load ''t2'' Map.empty
        (mark_used ''Hamlet|III|I|56'' (RangeList [0, 1, 2])
           (load ''t1'' Map.empty (new_UsedMap ''data/used_maps/'')))) ''t2'' = Some Map.empty"
  using used_once_guarantee [of "''t1''" "''Hamlet|III|I|56''" "RangeList [0, 1, 2]"
      Map.empty "new_UsedMap ''data/used_maps/''" Map.empty "''t2''"]
  by (simp add: ledger_lists_def)

text \<open>
  Claim C10.  While no translation session has been loaded (the active id is \<open>None\<close>),
  \<open>mark_used\<close> returns the ledger unchanged and \<open>was_used\<close> returns false, for every key
  and range; neither has a raising path.
\<close>

theorem no_session_mark_used_void:
  assumes "active_translation_id um = None"
  shows "mark_used k r um = um \<and> was_used k r um = False"
  using assms by (simp add: mark_used_def was_used_def tid_or_active_def)

theorem no_session_mark_used_void_witness:
  "active_translation_id (new_UsedMap ''data/used_maps/'') = None \<and>
   mark_used ''Hamlet|III|I|56'' (RangeStr ''0,2'') (new_UsedMap ''data/used_maps/'')
     = new_UsedMap ''data/used_maps/'' \<and>
   was_used ''Hamlet|III|I|56'' (RangeStr ''0,2'') (new_UsedMap ''data/used_maps/'') = False"
proof -
  have h: "active_translation_id (new_UsedMap ''data/used_maps/'') = None"
    by (simp add: new_UsedMap_def)
  show ?thesis
    using h no_session_mark_used_void [OF h, of "''Hamlet|III|I|56''" "RangeStr ''0,2''"]
    by simp
qed

section \<open>Properties of the local re-validation\<close>

lemma match_front_split:
  "match_front remaining avail = Some (q, avail') \<Longrightarrow>
   \<exists>pre post. avail = pre @ q # post \<and> avail' = pre @ post \<and>
      prefix (normalized q) remaining \<and>
      (\<forall>p \<in> set pre. \<not> prefix (normalized p) remaining)"
proof (induction avail arbitrary: avail')
  case Nil
  then show ?case by simp
next
  case (Cons a avail)
  show ?case
  proof (cases "prefix (normalized a) remaining")
    case True
    with Cons.prems have "q = a" "avail' = avail" by simp_all
    with True show ?thesis
      by (intro exI [of _ "[]"] exI [of _ avail] conjI) simp_all
  next
    case False
    with Cons.prems obtain rest' where
      m: "match_front remaining avail = Some (q, rest')" and a': "avail' = a # rest'"
      by (auto split: option.splits)
    from Cons.IH [OF m] obtain pre post where
      "avail = pre @ q # post" "rest' = pre @ post" "prefix (normalized q) remaining"
      "\<forall>p \<in> set pre. \<not> prefix (normalized p) remaining"
      by blast
    with False a' have "a # avail = (a # pre) @ q # post \<and> avail' = (a # pre) @ post \<and>
      prefix (normalized q) remaining \<and>
      (\<forall>p \<in> set (a # pre). \<not> prefix (normalized p) remaining)" by simp
    then show ?thesis by blast
  qed
qed

lemma longest_first_sort: "longest_first (sort_longest_first qs)"
  by (simp add: longest_first_def sort_longest_first_def)

lemma mset_sort_longest_first: "mset (sort_longest_first qs) = mset qs"
  by (simp add: sort_longest_first_def)

lemma match_front_greedy:
  assumes "match_front remaining avail = Some (q, avail')" and "longest_first avail"
  shows "q \<in># mset avail" and "mset avail' = mset avail - {#q#}"
    and "prefix (normalized q) remaining" and "longest_first avail'"
    and "\<forall>q' \<in># mset avail. prefix (normalized q') remaining \<longrightarrow>
           length (normalized q') \<le> length (normalized q)"
proof -
  from match_front_split [OF assms(1)] obtain pre post where
    av: "avail = pre @ q # post" and av': "avail' = pre @ post" and
    pq: "prefix (normalized q) remaining" and
    npre: "\<forall>p \<in> set pre. \<not> prefix (normalized p) remaining"
    by blast
  show "q \<in># mset avail" using av by simp
  show "mset avail' = mset avail - {#q#}" using av av' by simp
  show "prefix (normalized q) remaining" by (rule pq)
  from assms(2) av have s: "sorted (map (\<lambda>q. - int (length (normalized q))) (pre @ q # post))"
    by (simp add: longest_first_def)
  then show "longest_first avail'"
    unfolding av' longest_first_def by (auto simp: sorted_append)
  from s have "\<forall>p \<in> set post. length (normalized p) \<le> length (normalized q)"
    by (auto simp: sorted_append)
  with npre show "\<forall>q' \<in># mset avail. prefix (normalized q') remaining \<longrightarrow>
           length (normalized q') \<le> length (normalized q)"
    unfolding av by auto
qed

lemma match_loop_greedy:
  "match_loop n remaining avail used = Some (ids, rest) \<Longrightarrow> longest_first avail \<Longrightarrow>
   \<exists>qs. length qs \<le> n \<and> mset qs \<subseteq># mset avail \<and> ids = used @ map q_temp_id qs \<and>
        remaining = concat (map normalized qs) @ rest \<and>
        greedy_from remaining (mset avail) qs"
proof (induction n arbitrary: remaining avail used)
  case 0
  then show ?case by (intro exI [of _ "[]"]) simp
next
  case (Suc n)
  show ?case
  proof (cases "remaining = []")
    case True
    with Suc.prems show ?thesis by (intro exI [of _ "[]"]) simp
  next
    case False
    with Suc.prems(1) obtain q avail' where
      m: "match_front remaining avail = Some (q, avail')" and
      l: "match_loop n (drop (length (normalized q)) remaining) avail' (used @ [q_temp_id q])
            = Some (ids, rest)"
      by (auto split: option.splits)
    note g = match_front_greedy [OF m Suc.prems(2)]
    from Suc.IH [OF l g(4)] obtain qs where
      qs: "length qs \<le> n" "mset qs \<subseteq># mset avail'"
        "ids = (used @ [q_temp_id q]) @ map q_temp_id qs"
        "drop (length (normalized q)) remaining = concat (map normalized qs) @ rest"
        "greedy_from (drop (length (normalized q)) remaining) (mset avail') qs"
      by blast
    from g(3) have r: "remaining = normalized q @ drop (length (normalized q)) remaining"
      by (auto simp: prefix_def)
    have sub: "mset (q # qs) \<subseteq># mset avail"
      using qs(2) g(1) g(2) by (simp add: insert_subset_eq_iff)
    have cat: "remaining = concat (map normalized (q # qs)) @ rest"
      using r qs(4) by simp
    have gr: "greedy_from remaining (mset avail) (q # qs)"
      using g qs(5) by simp
    show ?thesis
      using qs(1) qs(3) sub cat gr by (intro exI [of _ "q # qs"]) simp
  qed
qed

text \<open>
  Claim C4.  Whenever \<open>_mini_validate\<close> succeeds, the returned \<open>temp_ids\<close> are those of at
  most three of the listed candidates, none of them taken twice, the concatenation of
  their normalized texts in the returned order is the normalized assembled line, and each
  was picked greedily at the front of the remaining text, longest first.
\<close>

theorem mini_validate_sound:
  assumes "mini_validate assembled_line quote_data = Inr (Some result)"
  shows "\<exists>all_quotes qs.
           collect_quotes (concat (map snd quote_data)) = Inr all_quotes \<and>
           length qs \<le> 3 \<and> mset qs \<subseteq># mset all_quotes \<and>
           asm_temp_ids result = map q_temp_id qs \<and>
           concat (map normalized qs) = normalize_text assembled_line \<and>
           greedy_from (normalize_text assembled_line) (mset all_quotes) qs \<and>
           asm_text result = assembled_line"
proof -
  from assms obtain all_quotes ids where
    c: "collect_quotes (concat (map snd quote_data)) = Inr all_quotes" and
    l: "match_loop 3 (normalize_text assembled_line) (sort_longest_first all_quotes) []
          = Some (ids, [])" and
    r: "result = \<lparr>asm_text = assembled_line, asm_temp_ids = ids\<rparr>"
    by (auto simp: mini_validate_def split: sum.splits option.splits if_splits)
  from match_loop_greedy [OF l longest_first_sort] obtain qs where
    "length qs \<le> 3" "mset qs \<subseteq># mset (sort_longest_first all_quotes)"
    "ids = [] @ map q_temp_id qs"
    "normalize_text assembled_line = concat (map normalized qs) @ []"
    "greedy_from (normalize_text assembled_line) (mset (sort_longest_first all_quotes)) qs"
    by blast
  with c r have "collect_quotes (concat (map snd quote_data)) = Inr all_quotes \<and>
           length qs \<le> 3 \<and> mset qs \<subseteq># mset all_quotes \<and>
           asm_temp_ids result = map q_temp_id qs \<and>
           concat (map normalized qs) = normalize_text assembled_line \<and>
           greedy_from (normalize_text assembled_line) (mset all_quotes) qs \<and>
           asm_text result = assembled_line"
    by (simp add: mset_sort_longest_first)
  then show ?thesis by blast
qed

theorem mini_validate_sound_witness:
  "mini_validate ''To be or not to be!''
     [(''line'', [\<lparr>opt_temp_id = Some ''line_1'', opt_text = Some ''To be, or not'', opt_target_syllables = None\<rparr>]),
      (''phrases'', [\<lparr>opt_temp_id = Some ''phrases_1'', opt_text = Some ''to be'', opt_target_syllables = None\<rparr>,
                     \<lparr>opt_temp_id = Some ''phrases_2'', opt_text = Some ''To be, or'', opt_target_syllables = None\<rparr>])]
    = Inr (Some \<lparr>asm_text = ''To be or not to be!'', asm_temp_ids = [''line_1'', ''phrases_1'']\<rparr>) \<and>
   (\<exists>all_quotes qs.
      collect_quotes (concat (map snd
     [(''line'', [\<lparr>opt_temp_id = Some ''line_1'', opt_text = Some ''To be, or not'', opt_target_syllables = None\<rparr>]),
      (''phrases'', [\<lparr>opt_temp_id = Some ''phrases_1'', opt_text = Some ''to be'', opt_target_syllables = None\<rparr>,
                     \<lparr>opt_temp_id = Some ''phrases_2'', opt_text = Some ''To be, or'', opt_target_syllables = None\<rparr>])])) = Inr all_quotes \<and>
      length qs \<le> 3 \<and> mset qs \<subseteq># mset all_quotes \<and>
      asm_temp_ids \<lparr>asm_text = ''To be or not to be!'', asm_temp_ids = [''line_1'', ''phrases_1'']\<rparr> = map q_temp_id qs \<and>
      concat (map normalized qs) = normalize_text ''To be or not to be!'' \<and>
      greedy_from (normalize_text ''To be or not to be!'') (mset all_quotes) qs \<and>
      asm_text \<lparr>asm_text = ''To be or not to be!'', asm_temp_ids = [''line_1'', ''phrases_1'']\<rparr> = ''To be or not to be!'')"
proof -
  have h: "mini_validate ''To be or not to be!''
     [(''line'', [\<lparr>opt_temp_id = Some ''line_1'', opt_text = Some ''To be, or not'', opt_target_syllables = None\<rparr>]),
      (''phrases'', [\<lparr>opt_temp_id = Some ''phrases_1'', opt_text = Some ''to be'', opt_target_syllables = None\<rparr>,
                     \<lparr>opt_temp_id = Some ''phrases_2'', opt_text = Some ''To be, or'', opt_target_syllables = None\<rparr>])]
    = Inr (Some \<lparr>asm_text = ''To be or not to be!'', asm_temp_ids = [''line_1'', ''phrases_1'']\<rparr>)"
    by code_simp
  show ?thesis
    by (rule conjI [OF h mini_validate_sound [OF h]])
qed

section \<open>Properties of the word-index strings\<close>

lemma of_char_digit: "d < 10 \<Longrightarrow> of_char (char_of (48 + d) :: char) = (48 + d :: nat)"
  by simp

lemma str_nat_digits: "str_nat n \<noteq> [] \<and> (\<forall>c \<in> set (str_nat n). in_range 48 57 c)"
proof (induction n rule: str_nat.induct)
  case (1 n)
  show ?case
  proof (cases "n < 10")
    case True
    then show ?thesis by (simp add: str_nat.simps [of n] in_range_def)
  next
    case False
    have "n mod 10 < 10" by simp
    then have "in_range 48 57 (char_of (48 + n mod 10))"
      unfolding in_range_def by (simp add: of_char_digit)
    with False 1 show ?thesis by (simp add: str_nat.simps [of n])
  qed
qed

lemma parse_digits_digit:
  "d < 10 \<Longrightarrow> parse_digits acc b (char_of (48 + d) # cs) = parse_digits (10 * acc + d) True cs"
proof -
  assume d: "d < 10"
  have "char_of (48 + d) \<noteq> CHR ''_''"
  proof
    assume "char_of (48 + d) = CHR ''_''"
    then have "of_char (char_of (48 + d) :: char) = (of_char CHR ''_'' :: nat)" by simp
    with d show False by (simp add: of_char_digit)
  qed
  with d show ?thesis by (simp add: in_range_def of_char_digit)
qed

lemma parse_digits_str_nat:
  "parse_digits acc b (str_nat n @ cs) = parse_digits (acc * 10 ^ length (str_nat n) + n) True cs"
proof (induction n arbitrary: acc b cs rule: str_nat.induct)
  case (1 n)
  show ?case
  proof (cases "n < 10")
    case True
    then show ?thesis
      by (simp add: str_nat.simps [of n] parse_digits_digit mult.commute del: parse_digits.simps)
  next
    case False
    have m: "n mod 10 < 10" by simp
    have "parse_digits acc b (str_nat n @ cs)
        = parse_digits acc b (str_nat (n div 10) @ char_of (48 + n mod 10) # cs)"
      using False by (simp add: str_nat.simps [of n])
    also have "\<dots> = parse_digits (acc * 10 ^ length (str_nat (n div 10)) + n div 10) True
                       (char_of (48 + n mod 10) # cs)"
      using False by (rule 1)
    also have "\<dots> = parse_digits (10 * (acc * 10 ^ length (str_nat (n div 10)) + n div 10)
                        + n mod 10) True cs"
      by (rule parse_digits_digit [OF m])
    also have "10 * (acc * 10 ^ length (str_nat (n div 10)) + n div 10) + n mod 10
        = acc * 10 ^ length (str_nat n) + n"
      using False by (simp add: str_nat.simps [of n] algebra_simps)
    finally show ?thesis .
  qed
qed

lemma parse_digits_str_nat_all: "parse_digits 0 False (str_nat n) = Some n"
  using parse_digits_str_nat [of 0 False n "[]"] by simp

lemma strip_int_space_id:
  "s \<noteq> [] \<Longrightarrow> \<not> int_space (hd s) \<Longrightarrow> \<not> int_space (last s) \<Longrightarrow>
   rev (dropWhile int_space (rev (dropWhile int_space s))) = s"
proof -
  assume a: "s \<noteq> []" "\<not> int_space (hd s)" "\<not> int_space (last s)"
  then have "dropWhile int_space s = s" by (cases s) simp_all
  moreover from a have "dropWhile int_space (rev s) = rev s"
    by (cases "rev s") (simp_all add: last_rev [symmetric] hd_rev)
  ultimately show ?thesis by simp
qed

lemma digit_not_space: "in_range 48 57 c \<Longrightarrow> \<not> int_space c"
  by (auto simp: in_range_def int_space_def)

lemma digit_not_sign: "in_range 48 57 c \<Longrightarrow> c \<noteq> CHR ''-'' \<and> c \<noteq> CHR ''+'' \<and> c \<noteq> CHR '',''"
  by (auto simp: in_range_def)

lemma py_int_str_int: "py_int (str_int i) = Some i"
proof (cases "i < 0")
  case True
  let ?d = "str_nat (nat (- i))"
  from str_nat_digits [of "nat (- i)"] have d: "?d \<noteq> []" "\<forall>c \<in> set ?d. in_range 48 57 c"
    by simp_all
  then have "\<not> int_space (last ?d)" by (simp add: digit_not_space)
  then have "rev (dropWhile int_space (rev (dropWhile int_space (CHR ''-'' # ?d)))) = CHR ''-'' # ?d"
    using d(1) by (intro strip_int_space_id) (simp_all add: int_space_def in_range_def)
  with True show ?thesis
    by (simp add: py_int_def str_int_def parse_digits_str_nat_all)
next
  case False
  let ?d = "str_nat (nat i)"
  from str_nat_digits [of "nat i"] have d: "?d \<noteq> []" "\<forall>c \<in> set ?d. in_range 48 57 c"
    by simp_all
  then obtain c cs where cs: "?d = c # cs" by (cases ?d) auto
  with d have c: "in_range 48 57 c" by simp
  from d have "\<not> int_space (hd ?d)" "\<not> int_space (last ?d)"
    by (simp_all add: digit_not_space)
  with d(1) have "rev (dropWhile int_space (rev (dropWhile int_space ?d))) = ?d"
    by (rule strip_int_space_id)
  with False cs digit_not_sign [OF c] parse_digits_str_nat_all [of "nat i"] show ?thesis
    by (simp add: py_int_def str_int_def)
qed

lemma split_from_no_sep: "sep \<notin> set a \<Longrightarrow> split_from sep cur (a @ rest) = split_from sep (cur @ a) rest"
  by (induction a arbitrary: cur) auto

lemma str_int_no_comma: "CHR '','' \<notin> set (str_int i)"
  using str_nat_digits [of "nat i"] str_nat_digits [of "nat (- i)"] digit_not_sign
  by (auto simp: str_int_def)

lemma parse_word_index_format: "parse_word_index (format_word_index s e) = Some (s, e)"
proof -
  have "py_split CHR '','' (format_word_index s e) = [str_int s, str_int e]"
    using split_from_no_sep [of "CHR '',''" "str_int s" "[]" "CHR '','' # str_int e"]
      split_from_no_sep [of "CHR '',''" "str_int e" "[]" "[]"]
    by (simp add: py_split_def format_word_index_def str_int_no_comma)
  then show ?thesis by (simp add: parse_word_index_def py_int_str_int)
qed

lemma chunk_indices_range:
  "word_index c = format_word_index (int s) (int s + int n - 1) \<Longrightarrow> chunk_indices c = {s..<s + n}"
proof -
  assume "word_index c = format_word_index (int s) (int s + int n - 1)"
  then have "chunk_indices c = nat ` {int s..int s + int n - 1}"
    by (simp add: chunk_indices_def parse_word_index_format)
  also have "\<dots> = {s..<s + n}"
  proof (intro set_eqI iffI)
    fix x assume "x \<in> nat ` {int s..int s + int n - 1}"
    then show "x \<in> {s..<s + n}" by auto
  next
    fix x assume "x \<in> {s..<s + n}"
    then have "int x \<in> {int s..int s + int n - 1}" by auto
    then have "nat (int x) \<in> nat ` {int s..int s + int n - 1}" by (rule imageI)
    then show "x \<in> nat ` {int s..int s + int n - 1}" by simp
  qed
  finally show ?thesis .
qed

section \<open>Properties of the chunkers\<close>

lemma overlaps_iff: "overlaps used a b \<longleftrightarrow> {a..<b} \<inter> used \<noteq> {}"
  by (auto simp: overlaps_def list_ex_iff)

lemma disjoint_chunks_nth:
  "disjoint_chunks cs \<Longrightarrow> i < j \<Longrightarrow> j < length cs \<Longrightarrow>
   chunk_indices (cs ! i) \<inter> chunk_indices (cs ! j) = {}"
proof (induction cs arbitrary: i j)
  case Nil
  then show ?case by simp
next
  case (Cons c cs)
  show ?case
  proof (cases i)
    case 0
    with Cons.prems obtain j' where "j = Suc j'" "j' < length cs" by (cases j) auto
    with 0 Cons.prems(1) show ?thesis by simp
  next
    case (Suc i')
    with Cons.prems obtain j' where "j = Suc j'" "i' < j'" "j' < length cs" by (cases j) auto
    with Suc Cons.IH [of i' j'] Cons.prems(1) show ?thesis by simp
  qed
qed

lemma disjoint_chunks_append:
  "disjoint_chunks (xs @ ys) \<longleftrightarrow>
     disjoint_chunks xs \<and> disjoint_chunks ys \<and>
     (\<forall>c \<in> set xs. \<forall>d \<in> set ys. chunk_indices c \<inter> chunk_indices d = {})"
  by (induction xs) auto

lemma find_slice_bound:
  "find_slice token_words ws = Some i \<Longrightarrow> i + length ws \<le> length token_words"
proof -
  assume "find_slice token_words ws = Some i"
  then have i: "i < Suc (length token_words) - length ws"
    and t: "take (length ws) (drop i token_words) = ws"
    by (auto simp: find_slice_def find_Some_iff)
  from i show ?thesis by arith
qed

lemma phrase_loop_ranges:
  "(\<forall>c \<in> set (phrase_loop env lc token_words token_pos n_phrases idx phrases used).
       chunk_indices c \<inter> used = {} \<and> chunk_range_ok (length token_words) c \<and>
       3 \<le> word_count c \<and> total_phrases_in_line c = n_phrases) \<and>
   disjoint_chunks (phrase_loop env lc token_words token_pos n_phrases idx phrases used)"
proof (induction phrases arbitrary: idx used)
  case Nil
  show ?case by simp
next
  case (Cons phrase rest)
  let ?ws = "words_of (process_line_with_spacy env phrase)"
  show ?case
  proof (cases "length ?ws < 3")
    case True
    with Cons [of "Suc idx" used] show ?thesis by (simp add: Let_def)
  next
    case long: False
    show ?thesis
    proof (cases "find_slice token_words ?ws")
      case None
      with long Cons [of "Suc idx" used] show ?thesis by (simp add: Let_def)
    next
      case (Some i)
      show ?thesis
      proof (cases "overlaps used i (Suc (i + length ?ws - 1))")
        case True
        with long Some Cons [of "Suc idx" used] show ?thesis by (simp add: Let_def)
      next
        case False
        let ?R = "{i..<i + length ?ws}"
        from long have e: "Suc (i + length ?ws - 1) = i + length ?ws" by simp
        obtain c where c: "phrase_loop env lc token_words token_pos n_phrases idx (phrase # rest) used
            = c # phrase_loop env lc token_words token_pos n_phrases (Suc idx) rest (used \<union> ?R)"
          and wi: "word_index c = format_word_index (int i) (int i + int (length ?ws) - 1)"
          and wc: "word_count c = length ?ws" and tp: "total_phrases_in_line c = n_phrases"
          using long Some False e by (simp add: Let_def of_nat_diff)
        from wi have ci: "chunk_indices c = ?R" by (rule chunk_indices_range)
        from False e have d: "?R \<inter> used = {}" by (simp add: overlaps_iff)
        from find_slice_bound [OF Some] ci wc have ok: "chunk_range_ok (length token_words) c"
          unfolding chunk_range_ok_def by auto
        note IH = Cons [of "Suc idx" "used \<union> ?R"]
        from IH ci have "\<forall>d \<in> set (phrase_loop env lc token_words token_pos n_phrases (Suc idx) rest
            (used \<union> ?R)). chunk_indices c \<inter> chunk_indices d = {}"
          by auto
        with IH ci d ok wc tp long show ?thesis unfolding c by auto
      qed
    qed
  qed
qed


lemma make_fragment_fields [simp]:
  "word_index (make_fragment lc k ws fragment_pos s e) = format_word_index s e"
  "word_count (make_fragment lc k ws fragment_pos s e) = length ws"
  "source_chunk_id (make_fragment lc k ws fragment_pos s e) = lc_chunk_id lc"
  by (simp_all add: make_fragment_def)

lemma subtree_loop_ranges:
  "subtree_loop lc min_words max_words token_words doc used idx = (cs, used', idx') \<Longrightarrow>
   (\<forall>c \<in> set cs. chunk_fits (length token_words) min_words max_words used c \<and>
       source_chunk_id c = lc_chunk_id lc) \<and>
   disjoint_chunks cs \<and> idx' = idx + length cs \<and>
   used' = used \<union> \<Union> (chunk_indices ` set cs)"
proof (induction doc arbitrary: used idx cs used' idx')
  case Nil
  then show ?case by simp
next
  case (Cons token rest)
  let ?wt = "filter is_word_token (subtree token)"
  let ?ws = "map tok_text ?wt"
  show ?case
  proof (cases "length ?wt < min_words \<or> length ?wt > max_words")
    case True
    with Cons.prems have "subtree_loop lc min_words max_words token_words rest used idx
        = (cs, used', idx')" by (simp add: Let_def)
    from Cons.IH [OF this] show ?thesis .
  next
    case size: False
    show ?thesis
    proof (cases "find_slice token_words ?ws")
      case None
      with size Cons.prems have "subtree_loop lc min_words max_words token_words rest used idx
          = (cs, used', idx')" by (simp add: Let_def)
      from Cons.IH [OF this] show ?thesis .
    next
      case (Some i)
      show ?thesis
      proof (cases "overlaps used i (i + length ?ws)")
        case True
        with size Some Cons.prems have
          "subtree_loop lc min_words max_words token_words rest used idx = (cs, used', idx')"
          by (simp add: Let_def)
        from Cons.IH [OF this] show ?thesis .
      next
        case False
        let ?R = "{i..<i + length ?ws}"
        let ?c = "make_fragment lc idx ?ws (map tok_pos ?wt) (int i) (int i + int (length ?ws) - 1)"
        from size Some False Cons.prems obtain cs0 where
          r: "subtree_loop lc min_words max_words token_words rest (used \<union> ?R) (Suc idx)
                = (cs0, used', idx')" and cs: "cs = ?c # cs0"
          by (auto simp: Let_def split: prod.splits)
        have ci: "chunk_indices ?c = ?R" by (rule chunk_indices_range) simp
        from False have d: "?R \<inter> used = {}" by (simp add: overlaps_iff)
        from find_slice_bound [OF Some] ci have ok: "chunk_range_ok (length token_words) ?c"
          unfolding chunk_range_ok_def by auto
        from size ci d ok have w: "chunk_fits (length token_words) min_words max_words used ?c"
          by (simp add: chunk_fits_def)
        note IH = Cons.IH [OF r]
        from IH have rest_w: "\<forall>c \<in> set cs0. chunk_fits (length token_words) min_words max_words used c \<and>
            chunk_indices ?c \<inter> chunk_indices c = {}"
          unfolding chunk_fits_def ci by auto
        from IH rest_w w ci show ?thesis unfolding cs by auto
      qed
    qed
  qed
qed

lemma window_sizes_mem: "w \<in> set (window_sizes min_words max_words) \<longleftrightarrow> min_words \<le> w \<and> w \<le> max_words"
  by (auto simp: window_sizes_def)

lemma window_loop_ranges:
  "(\<forall>c \<in> set (window_loop lc min_words max_words token_words pos_tags positions used idx).
       chunk_fits (length token_words) min_words max_words used c \<and>
       source_chunk_id c = lc_chunk_id lc) \<and>
   disjoint_chunks (window_loop lc min_words max_words token_words pos_tags positions used idx)"
proof (induction positions arbitrary: used idx)
  case Nil
  show ?case by simp
next
  case (Cons i others)
  let ?P = "\<lambda>window_size. \<not> i + window_size > length token_words \<and>
              \<not> overlaps used i (i + window_size)"
  show ?case
  proof (cases "List.find ?P (window_sizes min_words max_words)")
    case None
    with Cons [of used idx] show ?thesis by simp
  next
    case (Some w)
    then have mem: "w \<in> set (window_sizes min_words max_words)" and fit: "i + w \<le> length token_words"
      and free: "\<not> overlaps used i (i + w)"
      by (auto simp: find_Some_iff)
    let ?R = "{i..<i + w}"
    let ?c = "make_fragment lc idx (take w (drop i token_words))
        (if i + w \<le> length pos_tags then take w (drop i pos_tags) else replicate w [])
        (int i) (int i + int w - 1)"
    have eq: "window_loop lc min_words max_words token_words pos_tags (i # others) used idx
        = ?c # window_loop lc min_words max_words token_words pos_tags others (used \<union> ?R) (Suc idx)"
      using Some by simp
    from fit have wc: "word_count ?c = w" by simp
    have ci: "chunk_indices ?c = ?R" by (rule chunk_indices_range) simp
    from free have d: "?R \<inter> used = {}" by (simp add: overlaps_iff)
    from fit ci wc have ok: "chunk_range_ok (length token_words) ?c"
      unfolding chunk_range_ok_def by auto
    from mem ci d ok wc have w: "chunk_fits (length token_words) min_words max_words used ?c"
      by (simp add: chunk_fits_def window_sizes_mem)
    note IH = Cons [of "used \<union> ?R" "Suc idx"]
    from IH have rest_w: "\<forall>c \<in> set (window_loop lc min_words max_words token_words pos_tags others
          (used \<union> ?R) (Suc idx)).
        chunk_fits (length token_words) min_words max_words used c \<and>
        chunk_indices ?c \<inter> chunk_indices c = {}"
      unfolding chunk_fits_def ci by auto
    from IH rest_w w show ?thesis unfolding eq by auto
  qed
qed

lemma window_loop_nonempty:
  assumes "min_words \<le> max_words" and "min_words \<le> length token_words"
  shows "window_loop lc min_words max_words token_words pos_tags
           (window_positions (length token_words) min_words) {} idx \<noteq> []"
proof -
  let ?P = "\<lambda>window_size. \<not> 0 + window_size > length token_words \<and>
              \<not> overlaps {} 0 (0 + window_size)"
  from assms obtain others where p: "window_positions (length token_words) min_words = 0 # others"
    by (auto simp: window_positions_def upt_conv_Cons simp del: upt_Suc)
  from assms have "min_words \<in> set (window_sizes min_words max_words)" "?P min_words"
    by (simp_all add: window_sizes_mem overlaps_iff)
  then have "List.find ?P (window_sizes min_words max_words) \<noteq> None"
    by (auto simp: find_None_iff)
  then show ?thesis unfolding p by (auto split: option.splits)
qed

lemma fragments_with_doc_cases:
  "(\<exists>cs used' idx'. subtree_loop lc min_words max_words
        (words_of (line_tokens_of env line_doc (normalize_quotes (lc_text lc))))
        (case line_doc of None \<Rightarrow> [] | Some doc \<Rightarrow> doc) {} 0 = (cs, used', idx') \<and> cs \<noteq> [] \<and>
      fragments_with_doc env min_words max_words lc line_doc = cs) \<or>
   fragments_with_doc env min_words max_words lc line_doc =
     window_loop lc min_words max_words
       (words_of (line_tokens_of env line_doc (normalize_quotes (lc_text lc))))
       (pos_of (line_tokens_of env line_doc (normalize_quotes (lc_text lc))))
       (window_positions
          (length (words_of (line_tokens_of env line_doc (normalize_quotes (lc_text lc)))))
          min_words) {} 0"
proof (cases "SPACY_AVAILABLE env")
  case False
  then show ?thesis by (simp add: fragments_with_doc_def Let_def)
next
  case True
  let ?tw = "words_of (line_tokens_of env line_doc (normalize_quotes (lc_text lc)))"
  obtain cs used' idx' where s: "subtree_loop lc min_words max_words ?tw
      (case line_doc of None \<Rightarrow> [] | Some doc \<Rightarrow> doc) {} 0 = (cs, used', idx')"
    by (cases "subtree_loop lc min_words max_words ?tw
      (case line_doc of None \<Rightarrow> [] | Some doc \<Rightarrow> doc) {} 0") auto
  from subtree_loop_ranges [OF s] have i: "idx' = length cs" and u: "used' = \<Union> (chunk_indices ` set cs)"
    by simp_all
  show ?thesis
  proof (cases "cs = []")
    case True
    with i u s \<open>SPACY_AVAILABLE env\<close> show ?thesis
      by (simp add: fragments_with_doc_def Let_def)
  next
    case False
    with i s \<open>SPACY_AVAILABLE env\<close> have
      "fragments_with_doc env min_words max_words lc line_doc = cs"
      by (simp add: fragments_with_doc_def Let_def)
    with s False show ?thesis by blast
  qed
qed

lemma fragments_with_doc_ranges:
  "(\<forall>c \<in> set (fragments_with_doc env min_words max_words lc line_doc).
       chunk_fits (length (words_of (line_tokens_of env line_doc (normalize_quotes (lc_text lc)))))
         min_words max_words {} c \<and> source_chunk_id c = lc_chunk_id lc) \<and>
   disjoint_chunks (fragments_with_doc env min_words max_words lc line_doc)"
proof -
  let ?tw = "words_of (line_tokens_of env line_doc (normalize_quotes (lc_text lc)))"
  from fragments_with_doc_cases [of lc min_words max_words env line_doc]
  show ?thesis
  proof
    assume "\<exists>cs used' idx'. subtree_loop lc min_words max_words ?tw
        (case line_doc of None \<Rightarrow> [] | Some doc \<Rightarrow> doc) {} 0 = (cs, used', idx') \<and> cs \<noteq> [] \<and>
      fragments_with_doc env min_words max_words lc line_doc = cs"
    then obtain cs used' idx' where s: "subtree_loop lc min_words max_words ?tw
        (case line_doc of None \<Rightarrow> [] | Some doc \<Rightarrow> doc) {} 0 = (cs, used', idx')"
      and e: "fragments_with_doc env min_words max_words lc line_doc = cs"
      by blast
    from subtree_loop_ranges [OF s] show ?thesis unfolding e by blast
  next
    assume e: "fragments_with_doc env min_words max_words lc line_doc =
      window_loop lc min_words max_words ?tw
        (pos_of (line_tokens_of env line_doc (normalize_quotes (lc_text lc))))
        (window_positions (length ?tw) min_words) {} 0"
    show ?thesis unfolding e by (rule window_loop_ranges)
  qed
qed

lemma fragments_with_doc_nonempty:
  assumes "min_words \<le> max_words"
    and "min_words \<le> length (words_of (line_tokens_of env line_doc (normalize_quotes (lc_text lc))))"
  shows "fragments_with_doc env min_words max_words lc line_doc \<noteq> []"
  using fragments_with_doc_cases [of lc min_words max_words env line_doc]
    window_loop_nonempty [OF assms]
  by auto

lemma phrases_of_line_ranges:
  "(\<forall>c \<in> set (phrases_of_line env lc).
       chunk_range_ok (length (words_of (process_line_with_spacy env (normalize_quotes (lc_text lc))))) c \<and>
       3 \<le> word_count c \<and>
       total_phrases_in_line c = length (final_phrases (normalize_quotes (lc_text lc)))) \<and>
   disjoint_chunks (phrases_of_line env lc)"
  unfolding phrases_of_line_def Let_def
  using phrase_loop_ranges [of env lc
      "words_of (process_line_with_spacy env (normalize_quotes (lc_text lc)))"
      "pos_of (process_line_with_spacy env (normalize_quotes (lc_text lc)))"
      "length (final_phrases (normalize_quotes (lc_text lc)))" 0
      "final_phrases (normalize_quotes (lc_text lc))" "{}"]
  by blast

lemma fragments_of_line_ranges:
  assumes "fragments_of_line env min_words max_words lc = Inr cs"
  shows "(\<forall>c \<in> set cs. chunk_fits (length (fragment_line_words env lc)) min_words max_words {} c \<and>
            source_chunk_id c = lc_chunk_id lc) \<and> disjoint_chunks cs"
proof (cases "SPACY_AVAILABLE env")
  case True
  with assms obtain doc where d: "nlp env (normalize_quotes (lc_text lc)) = Some doc"
    and cs: "cs = fragments_with_doc env min_words max_words lc (Some doc)"
    by (auto simp: fragments_of_line_def split: option.splits)
  from True d have "fragment_line_words env lc
      = words_of (line_tokens_of env (Some doc) (normalize_quotes (lc_text lc)))"
    by (simp add: fragment_line_words_def)
  with fragments_with_doc_ranges [of env min_words max_words lc "Some doc"] cs
  show ?thesis by simp
next
  case False
  with assms have cs: "cs = fragments_with_doc env min_words max_words lc None"
    by (auto simp: fragments_of_line_def)
  from False have "fragment_line_words env lc
      = words_of (line_tokens_of env None (normalize_quotes (lc_text lc)))"
    by (simp add: fragment_line_words_def)
  with fragments_with_doc_ranges [of env min_words max_words lc None] cs
  show ?thesis by simp
qed

lemma fragments_of_line_nonempty:
  assumes "fragments_of_line env min_words max_words lc = Inr cs"
    and "min_words \<le> max_words" and "min_words \<le> length (fragment_line_words env lc)"
  shows "cs \<noteq> []"
proof (cases "SPACY_AVAILABLE env")
  case True
  with assms(1) obtain doc where d: "nlp env (normalize_quotes (lc_text lc)) = Some doc"
    and cs: "cs = fragments_with_doc env min_words max_words lc (Some doc)"
    by (auto simp: fragments_of_line_def split: option.splits)
  from True d assms(3) have "min_words \<le>
      length (words_of (line_tokens_of env (Some doc) (normalize_quotes (lc_text lc))))"
    by (simp add: fragment_line_words_def)
  from fragments_with_doc_nonempty [OF assms(2) this] cs show ?thesis by simp
next
  case False
  with assms(1) have cs: "cs = fragments_with_doc env min_words max_words lc None"
    by (auto simp: fragments_of_line_def)
  from False assms(3) have "min_words \<le>
      length (words_of (line_tokens_of env None (normalize_quotes (lc_text lc))))"
    by (simp add: fragment_line_words_def)
  from fragments_with_doc_nonempty [OF assms(2) this] cs show ?thesis by simp
qed

text \<open>
  Claim C1.  For every line, no two phrase chunks produced for it share a word index, and
  no two fragment chunks produced for it do, whichever strategy produced them; the
  \<open>word_index\<close> of every chunk denotes a range of the line's words.
\<close>

theorem chunks_non_overlapping:
  "(\<forall>c \<in> set (phrases_of_line env lc).
       chunk_range_ok
         (length (words_of (process_line_with_spacy env (normalize_quotes (lc_text lc))))) c) \<and>
   (\<forall>i j. i < j \<and> j < length (phrases_of_line env lc) \<longrightarrow>
       chunk_indices (phrases_of_line env lc ! i) \<inter>
       chunk_indices (phrases_of_line env lc ! j) = {}) \<and>
   (\<forall>cs. fragments_of_line env min_words max_words lc = Inr cs \<longrightarrow>
       (\<forall>c \<in> set cs. chunk_range_ok (length (fragment_line_words env lc)) c) \<and>
       (\<forall>i j. i < j \<and> j < length cs \<longrightarrow>
           chunk_indices (cs ! i) \<inter> chunk_indices (cs ! j) = {}))"
proof (intro conjI allI impI)
  show "\<forall>c \<in> set (phrases_of_line env lc). chunk_range_ok
         (length (words_of (process_line_with_spacy env (normalize_quotes (lc_text lc))))) c"
    using phrases_of_line_ranges [of env lc] by blast
next
  fix i j assume "i < j \<and> j < length (phrases_of_line env lc)"
  with phrases_of_line_ranges [of env lc]
  show "chunk_indices (phrases_of_line env lc ! i) \<inter>
        chunk_indices (phrases_of_line env lc ! j) = {}"
    by (simp add: disjoint_chunks_nth)
next
  fix cs assume "fragments_of_line env min_words max_words lc = Inr cs"
  from fragments_of_line_ranges [OF this]
  show "\<forall>c \<in> set cs. chunk_range_ok (length (fragment_line_words env lc)) c"
    by (simp add: chunk_fits_def)
next
  fix cs i j
  assume "fragments_of_line env min_words max_words lc = Inr cs" "i < j \<and> j < length cs"
  with fragments_of_line_ranges [of env min_words max_words lc cs]
  show "chunk_indices (cs ! i) \<inter> chunk_indices (cs ! j) = {}"
    by (simp add: disjoint_chunks_nth)
qed

theorem chunks_non_overlapping_witness:
  "map word_index (phrases_of_line fallback_env hamlet_line) = [''2,5'', ''6,9''] \<and>
   chunk_indices (phrases_of_line fallback_env hamlet_line ! 0) \<inter>
   chunk_indices (phrases_of_line fallback_env hamlet_line ! 1) = {} \<and>
   fragments_of_line fallback_env 3 6 hamlet_line
     = Inr (fragments_with_doc fallback_env 3 6 hamlet_line None) \<and>
   map word_index (fragments_with_doc fallback_env 3 6 hamlet_line None) = [''0,5'', ''6,9''] \<and>
   chunk_indices (fragments_with_doc fallback_env 3 6 hamlet_line None ! 0) \<inter>
   chunk_indices (fragments_with_doc fallback_env 3 6 hamlet_line None ! 1) = {}"
proof -
  have p: "map word_index (phrases_of_line fallback_env hamlet_line) = [''2,5'', ''6,9'']"
    by code_simp
  have f: "fragments_of_line fallback_env 3 6 hamlet_line
      = Inr (fragments_with_doc fallback_env 3 6 hamlet_line None)"
    by (simp add: fragments_of_line_def fallback_env_def)
  have w: "map word_index (fragments_with_doc fallback_env 3 6 hamlet_line None)
      = [''0,5'', ''6,9'']"
    by code_simp
  from p have lp: "length (phrases_of_line fallback_env hamlet_line) = 2"
    by (metis length_map length_Cons list.size(3) numeral_2_eq_2)
  from w have lw: "length (fragments_with_doc fallback_env 3 6 hamlet_line None) = 2"
    by (metis length_map length_Cons list.size(3) numeral_2_eq_2)
  note t = chunks_non_overlapping [of fallback_env hamlet_line 3 6]
  from t lp have "chunk_indices (phrases_of_line fallback_env hamlet_line ! 0) \<inter>
      chunk_indices (phrases_of_line fallback_env hamlet_line ! 1) = {}"
    by simp
  moreover from t f lw have
    "chunk_indices (fragments_with_doc fallback_env 3 6 hamlet_line None ! 0) \<inter>
     chunk_indices (fragments_with_doc fallback_env 3 6 hamlet_line None ! 1) = {}"
    by simp
  ultimately show ?thesis using p f w by simp
qed

lemma fragment_lines_mem:
  "fragment_lines env mn mx lcs = Inr out \<Longrightarrow>
   (\<forall>c \<in> set out. \<exists>lc \<in> set lcs. \<exists>cs. fragments_of_line env mn mx lc = Inr cs \<and> c \<in> set cs) \<and>
   (\<forall>lc \<in> set lcs. \<exists>cs. fragments_of_line env mn mx lc = Inr cs \<and> set cs \<subseteq> set out)"
proof (induction lcs arbitrary: out)
  case Nil
  then show ?case by simp
next
  case (Cons lc others)
  from Cons.prems obtain cs out' where
    a: "fragments_of_line env mn mx lc = Inr cs" and
    b: "fragment_lines env mn mx others = Inr out'" and c: "out = cs @ out'"
    by (auto split: sum.splits)
  from Cons.IH [OF b] a c show ?case by fastforce
qed

lemma update_totals_fields:
  "c \<in> set (update_totals chunks) \<Longrightarrow>
   \<exists>c0 \<in> set chunks. word_count c = word_count c0 \<and> word_index c = word_index c0 \<and>
      source_chunk_id c = source_chunk_id c0 \<and> line_key c = line_key c0 \<and>
      total_fragments_in_line c = Some (line_to_count chunks (line_key c0))"
  by (auto simp: update_totals_def line_key_def)

lemma update_totals_mem:
  "c0 \<in> set chunks \<Longrightarrow> \<exists>c \<in> set (update_totals chunks). source_chunk_id c = source_chunk_id c0"
  by (force simp: update_totals_def)

lemma chunk_indices_cong: "word_index c = word_index d \<Longrightarrow> chunk_indices c = chunk_indices d"
  by (simp add: chunk_indices_def)

text \<open>
  Claim C8.  With \<open>min_words = 3\<close>, every fragment chunk that \<open>chunk_from_line_chunks\<close>
  returns has between 3 and 6 words, which is also the size of its range, and every line
  whose token sequence has exactly 6 words yields at least one fragment chunk.
\<close>

theorem fragment_segmentation_boundary:
  assumes "fragment_chunk_from_line_chunks env 3 line_chunks = Inr out"
  shows "(\<forall>c \<in> set out. 3 \<le> word_count c \<and> word_count c \<le> 6 \<and>
            card (chunk_indices c) = word_count c) \<and>
         (\<forall>lc \<in> set line_chunks. length (fragment_line_words env lc) = 6 \<longrightarrow>
            (\<exists>cs. fragments_of_line env 3 6 lc = Inr cs \<and> cs \<noteq> []) \<and>
            (\<exists>c \<in> set out. source_chunk_id c = lc_chunk_id lc))"
proof -
  from assms obtain chunks where
    fl: "fragment_lines env 3 6 line_chunks = Inr chunks" and out: "out = update_totals chunks"
    by (auto simp: fragment_chunk_from_line_chunks_def split: sum.splits)
  note mem = fragment_lines_mem [OF fl]
  have bounds: "3 \<le> word_count c \<and> word_count c \<le> 6 \<and> card (chunk_indices c) = word_count c"
    if "c \<in> set out" for c
  proof -
    from that out update_totals_fields obtain c0 where
      c0: "c0 \<in> set chunks" "word_count c = word_count c0" "word_index c = word_index c0"
      by blast
    with mem obtain lc cs where "fragments_of_line env 3 6 lc = Inr cs" "c0 \<in> set cs"
      by blast
    with fragments_of_line_ranges [of env 3 6 lc cs]
    have "chunk_fits (length (fragment_line_words env lc)) 3 6 {} c0" by blast
    then obtain s where "3 \<le> word_count c0" "word_count c0 \<le> 6"
      "chunk_indices c0 = {s..<s + word_count c0}"
      by (auto simp: chunk_fits_def chunk_range_ok_def)
    with c0 chunk_indices_cong [OF c0(3)] show ?thesis by simp
  qed
  have six: "(\<exists>cs. fragments_of_line env 3 6 lc = Inr cs \<and> cs \<noteq> []) \<and>
      (\<exists>c \<in> set out. source_chunk_id c = lc_chunk_id lc)"
    if "lc \<in> set line_chunks" "length (fragment_line_words env lc) = 6" for lc
  proof -
    from mem that(1) obtain cs where
      cs: "fragments_of_line env 3 6 lc = Inr cs" "set cs \<subseteq> set chunks"
      by blast
    from that(2) have "cs \<noteq> []"
      by (intro fragments_of_line_nonempty [OF cs(1)]) simp_all
    then obtain c0 where c0: "c0 \<in> set cs" by (cases cs) auto
    with fragments_of_line_ranges [OF cs(1)] have "source_chunk_id c0 = lc_chunk_id lc"
      by blast
    moreover from c0 cs(2) update_totals_mem [of c0 chunks] out
    obtain c where "c \<in> set out" "source_chunk_id c = source_chunk_id c0" by blast
    ultimately show ?thesis using cs(1) \<open>cs \<noteq> []\<close> by auto
  qed
  from bounds six show ?thesis by blast
qed

lemma phrase_loop_length:
  "length (phrase_loop env lc token_words token_pos n_phrases idx phrases used) \<le> length phrases"
proof (induction phrases arbitrary: idx used)
  case Nil
  show ?case by simp
next
  case (Cons phrase rest)
  have "length (phrase_loop env lc token_words token_pos n_phrases (Suc idx) rest u)
      \<le> length rest" for u
    by (rule Cons)
  then show ?case
    by (auto simp: Let_def split: option.splits intro: le_SucI)
qed

theorem fragment_segmentation_boundary_witness:
  "fragment_chunk_from_line_chunks fallback_env 3 [six_word_line]
     = Inr (update_totals (fragments_with_doc fallback_env 3 6 six_word_line None)) \<and>
   length (fragment_line_words fallback_env six_word_line) = 6 \<and>
   map word_count (update_totals (fragments_with_doc fallback_env 3 6 six_word_line None)) = [6] \<and>
   list_all (\<lambda>c. 3 \<le> word_count c \<and> word_count c \<le> 6 \<and> card (chunk_indices c) = word_count c)
     (update_totals (fragments_with_doc fallback_env 3 6 six_word_line None)) \<and>
   (\<exists>c \<in> set (update_totals (fragments_with_doc fallback_env 3 6 six_word_line None)).
      source_chunk_id c = lc_chunk_id six_word_line)"
proof -
  have h: "fragment_chunk_from_line_chunks fallback_env 3 [six_word_line]
     = Inr (update_totals (fragments_with_doc fallback_env 3 6 six_word_line None))"
    by (simp add: fragment_chunk_from_line_chunks_def fragments_of_line_def fallback_env_def)
  have l: "length (fragment_line_words fallback_env six_word_line) = 6"
    by code_simp
  have w: "map word_count (update_totals (fragments_with_doc fallback_env 3 6 six_word_line None))
      = [6]"
    by code_simp
  from fragment_segmentation_boundary [OF h] l h w show ?thesis
    by (simp add: list_all_iff)
qed

text \<open>The key of a fragment chunk is that of its line chunk.\<close>

lemma make_fragment_key [simp]:
  "line_key (make_fragment lc k ws fragment_pos s e) = line_chunk_key lc"
  by (simp add: make_fragment_def line_key_def line_chunk_key_def)

lemma subtree_loop_key:
  "subtree_loop lc min_words max_words token_words doc used idx = (cs, used', idx') \<Longrightarrow>
   \<forall>c \<in> set cs. line_key c = line_chunk_key lc"
proof (induction doc arbitrary: used idx cs used' idx')
  case Nil
  then show ?case by simp
next
  case (Cons token rest)
  from Cons.prems Cons.IH show ?case
    by (auto simp add: Let_def split: if_splits option.splits prod.splits)
qed

lemma window_loop_key:
  "\<forall>c \<in> set (window_loop lc min_words max_words token_words pos_tags positions used idx).
     line_key c = line_chunk_key lc"
proof (induction positions arbitrary: used idx)
  case Nil
  show ?case by simp
next
  case (Cons i others)
  then show ?case by (simp split: option.splits)
qed

lemma fragments_with_doc_key:
  "\<forall>c \<in> set (fragments_with_doc env min_words max_words lc line_doc).
     line_key c = line_chunk_key lc"
  using fragments_with_doc_cases [of lc min_words max_words env line_doc]
    subtree_loop_key [of lc min_words max_words] window_loop_key [of lc min_words max_words]
  by metis

lemma fragments_of_line_key:
  assumes "fragments_of_line env min_words max_words lc = Inr cs"
  shows "\<forall>c \<in> set cs. line_key c = line_chunk_key lc"
  using assms fragments_with_doc_key [of env min_words max_words lc]
  by (auto simp add: fragments_of_line_def split: if_splits option.splits)

lemma fragment_lines_count:
  "fragment_lines env mn mx lcs = Inr chunks \<Longrightarrow>
   line_to_count chunks k
     = sum_list (map (fragments_created env mn mx) (filter (\<lambda>l. line_chunk_key l = k) lcs))"
proof (induction lcs arbitrary: chunks)
  case Nil
  then show ?case by (simp add: line_to_count_def)
next
  case (Cons lc others)
  from Cons.prems obtain cs out' where
    a: "fragments_of_line env mn mx lc = Inr cs" and
    b: "fragment_lines env mn mx others = Inr out'" and c: "chunks = cs @ out'"
    by (auto split: sum.splits)
  from fragments_of_line_key [OF a] have k: "\<forall>c \<in> set cs. line_key c = line_chunk_key lc" .
  have f: "length (filter (\<lambda>c. line_key c = k) cs)
      = (if line_chunk_key lc = k then fragments_created env mn mx lc else 0)"
  proof (cases "line_chunk_key lc = k")
    case True
    with k have "filter (\<lambda>c. line_key c = k) cs = cs" by (simp add: filter_id_conv)
    with True a show ?thesis by (simp add: fragments_created_def)
  next
    case False
    with k have "filter (\<lambda>c. line_key c = k) cs = []" by (simp add: filter_empty_conv)
    with False show ?thesis by simp
  qed
  from Cons.IH [OF b] f c show ?case by (simp add: line_to_count_def)
qed

lemma update_totals_count:
  "length (filter (\<lambda>d. line_key d = k) (update_totals chunks)) = line_to_count chunks k"
proof -
  have "filter (\<lambda>d. line_key d = k) (update_totals chunks)
      = map (\<lambda>c. c\<lparr>total_fragments_in_line := Some (line_to_count chunks (line_key c))\<rparr>)
          (filter (\<lambda>d. line_key d = k) chunks)"
    by (simp add: update_totals_def filter_map comp_def line_key_def)
  then show ?thesis by (simp add: line_to_count_def)
qed

text \<open>
  Claim C7 fails for both kinds of chunk.  The line
  \<open>To be, or not to be, that is the question:\<close> yields two phrase chunks, and both carry
  \<open>total_phrases_in_line = 3\<close>, the number of phrases the line was split into (the phrase
  \<open>To be,\<close> has fewer than three words and becomes no chunk).  Two line chunks without
  title, act, scene and line yield one fragment chunk each, and both fragment chunks carry
  \<open>total_fragments_in_line = 2\<close>, the number of fragment chunks with the key
  \<open>('Unknown', None, None, None)\<close>.
\<close>

theorem totals_in_line_counterexample:
  "map total_phrases_in_line (phrase_chunk_from_line_chunks fallback_env [hamlet_line]) = [3, 3] \<and>
   length (phrase_chunk_from_line_chunks fallback_env [hamlet_line]) = 2 \<and>
   map_sum id (map (\<lambda>c. (source_chunk_id c, total_fragments_in_line c)))
       (fragment_chunk_from_line_chunks fallback_env 3 untitled_lines)
     = Inr [(PStr ''chunk_a'', Some 2), (PStr ''chunk_b'', Some 2)] \<and>
   map lc_chunk_id untitled_lines = [PStr ''chunk_a'', PStr ''chunk_b''] \<and>
   map (fragments_created fallback_env 3 6) untitled_lines = [1, 1]"
  by code_simp

text \<open>
  Claim C7, amended.  Every phrase chunk's \<open>total_phrases_in_line\<close> is the number of
  phrases that its parent line was split into at punctuation and commas, which is at
  least the number of phrase chunks created for that line.  Every fragment chunk's
  \<open>total_fragments_in_line\<close> is the number of fragment chunks of the output with its
  \<open>(title, act, scene, line)\<close>, which is the number of fragment chunks created, over the
  whole call, for the line chunks that carry these four values; when one line chunk
  only carries them, it is the chunk's parent line and the total is the number of
  fragment chunks created for it.
\<close>

theorem totals_in_line:
  "(\<forall>c \<in> set (phrases_of_line env lc).
       total_phrases_in_line c = length (final_phrases (normalize_quotes (lc_text lc)))) \<and>
   length (phrases_of_line env lc) \<le> length (final_phrases (normalize_quotes (lc_text lc))) \<and>
   (\<forall>out. fragment_chunk_from_line_chunks env min_words line_chunks = Inr out \<longrightarrow>
      (\<forall>c \<in> set out.
          total_fragments_in_line c
            = Some (length (filter (\<lambda>d. line_key d = line_key c) out)) \<and>
          total_fragments_in_line c
            = Some (sum_list (map (fragments_created env min_words 6)
                       (filter (\<lambda>l. line_chunk_key l = line_key c) line_chunks))) \<and>
          (\<forall>l. filter (\<lambda>l. line_chunk_key l = line_key c) line_chunks = [l] \<longrightarrow>
               source_chunk_id c = lc_chunk_id l \<and>
               total_fragments_in_line c = Some (fragments_created env min_words 6 l))))"
proof (intro conjI allI impI)
  show "\<forall>c \<in> set (phrases_of_line env lc).
       total_phrases_in_line c = length (final_phrases (normalize_quotes (lc_text lc)))"
    using phrases_of_line_ranges [of env lc] by blast
next
  show "length (phrases_of_line env lc) \<le> length (final_phrases (normalize_quotes (lc_text lc)))"
    unfolding phrases_of_line_def Let_def by (rule phrase_loop_length)
next
  fix out assume "fragment_chunk_from_line_chunks env min_words line_chunks = Inr out"
  then obtain chunks where fl: "fragment_lines env min_words 6 line_chunks = Inr chunks"
    and out: "out = update_totals chunks"
    by (auto simp: fragment_chunk_from_line_chunks_def split: sum.splits)
  show "\<forall>c \<in> set out.
          total_fragments_in_line c
            = Some (length (filter (\<lambda>d. line_key d = line_key c) out)) \<and>
          total_fragments_in_line c
            = Some (sum_list (map (fragments_created env min_words 6)
                       (filter (\<lambda>l. line_chunk_key l = line_key c) line_chunks))) \<and>
          (\<forall>l. filter (\<lambda>l. line_chunk_key l = line_key c) line_chunks = [l] \<longrightarrow>
               source_chunk_id c = lc_chunk_id l \<and>
               total_fragments_in_line c = Some (fragments_created env min_words 6 l))"
  proof
    fix c assume "c \<in> set out"
    with out have "c \<in> set (update_totals chunks)" by simp
    from update_totals_fields [OF this] obtain c0 :: fragment_chunk where
      c0: "c0 \<in> set chunks" and s: "source_chunk_id c = source_chunk_id c0" and
      k: "line_key c = line_key c0" and
      t: "total_fragments_in_line c = Some (line_to_count chunks (line_key c0))"
      by auto
    from t k have one: "total_fragments_in_line c
          = Some (length (filter (\<lambda>d. line_key d = line_key c) out))"
      by (simp add: out update_totals_count)
    from t k fragment_lines_count [OF fl, of "line_key c"]
    have two: "total_fragments_in_line c
            = Some (sum_list (map (fragments_created env min_words 6)
                       (filter (\<lambda>l. line_chunk_key l = line_key c) line_chunks)))"
      by simp
    from fragment_lines_mem [OF fl] c0 obtain parent cs where
      p: "parent \<in> set line_chunks" "fragments_of_line env min_words 6 parent = Inr cs"
        "c0 \<in> set cs"
      by blast
    from fragments_of_line_key [OF p(2)] p(3) k
    have pk: "line_chunk_key parent = line_key c" by simp
    from fragments_of_line_ranges [OF p(2)] p(3) s
    have ps: "source_chunk_id c = lc_chunk_id parent" by simp
    have three: "source_chunk_id c = lc_chunk_id l \<and>
               total_fragments_in_line c = Some (fragments_created env min_words 6 l)"
      if u: "filter (\<lambda>l. line_chunk_key l = line_key c) line_chunks = [l]" for l
    proof -
      from p(1) pk have "parent \<in> set (filter (\<lambda>l. line_chunk_key l = line_key c) line_chunks)"
        by simp
      with u have "parent = l" by simp
      with ps two u show ?thesis by simp
    qed
    from one two three show "total_fragments_in_line c
            = Some (length (filter (\<lambda>d. line_key d = line_key c) out)) \<and>
          total_fragments_in_line c
            = Some (sum_list (map (fragments_created env min_words 6)
                       (filter (\<lambda>l. line_chunk_key l = line_key c) line_chunks))) \<and>
          (\<forall>l. filter (\<lambda>l. line_chunk_key l = line_key c) line_chunks = [l] \<longrightarrow>
               source_chunk_id c = lc_chunk_id l \<and>
               total_fragments_in_line c = Some (fragments_created env min_words 6 l))"
      by blast
  qed
qed

theorem totals_in_line_witness:
  "map total_phrases_in_line (phrases_of_line fallback_env hamlet_line) = [3, 3] \<and>
   length (final_phrases (normalize_quotes (lc_text hamlet_line))) = 3 \<and>
   list_all (\<lambda>c. total_phrases_in_line c = 3) (phrases_of_line fallback_env hamlet_line) \<and>
   fragment_chunk_from_line_chunks fallback_env 3 [hamlet_line, six_word_line]
     = Inr (update_totals (fragments_with_doc fallback_env 3 6 hamlet_line None
                           @ fragments_with_doc fallback_env 3 6 six_word_line None)) \<and>
   map (\<lambda>c. (source_chunk_id c, total_fragments_in_line c))
       (update_totals (fragments_with_doc fallback_env 3 6 hamlet_line None
                       @ fragments_with_doc fallback_env 3 6 six_word_line None))
     = [(PStr ''chunk_1'', Some 2), (PStr ''chunk_1'', Some 2), (PStr ''chunk_2'', Some 1)] \<and>
   map (fragments_created fallback_env 3 6) [hamlet_line, six_word_line] = [2, 1] \<and>
   list_all (\<lambda>c. total_fragments_in_line c
        = Some (sum_list (map (fragments_created fallback_env 3 6)
                  (filter (\<lambda>l. line_chunk_key l = line_key c) [hamlet_line, six_word_line]))))
     (update_totals (fragments_with_doc fallback_env 3 6 hamlet_line None
                     @ fragments_with_doc fallback_env 3 6 six_word_line None)) \<and>
   list_all (\<lambda>c. source_chunk_id c = lc_chunk_id six_word_line \<and>
        total_fragments_in_line c = Some (fragments_created fallback_env 3 6 six_word_line))
     (filter (\<lambda>c. line_key c = line_chunk_key six_word_line)
        (update_totals (fragments_with_doc fallback_env 3 6 hamlet_line None
                        @ fragments_with_doc fallback_env 3 6 six_word_line None)))"
proof -
  let ?out = "update_totals (fragments_with_doc fallback_env 3 6 hamlet_line None
                             @ fragments_with_doc fallback_env 3 6 six_word_line None)"
  have p: "map total_phrases_in_line (phrases_of_line fallback_env hamlet_line) = [3, 3]"
    by code_simp
  have n: "length (final_phrases (normalize_quotes (lc_text hamlet_line))) = 3"
    by code_simp
  have h: "fragment_chunk_from_line_chunks fallback_env 3 [hamlet_line, six_word_line] = Inr ?out"
    by (simp add: fragment_chunk_from_line_chunks_def fragments_of_line_def fallback_env_def)
  have t: "map (\<lambda>c. (source_chunk_id c, total_fragments_in_line c)) ?out
     = [(PStr ''chunk_1'', Some 2), (PStr ''chunk_1'', Some 2), (PStr ''chunk_2'', Some 1)]"
    by code_simp
  have f: "map (fragments_created fallback_env 3 6) [hamlet_line, six_word_line] = [2, 1]"
    by code_simp
  note c = totals_in_line [of fallback_env hamlet_line 3 "[hamlet_line, six_word_line]"]
  from c have "\<forall>c \<in> set (phrases_of_line fallback_env hamlet_line).
      total_phrases_in_line c = length (final_phrases (normalize_quotes (lc_text hamlet_line)))"
    by blast
  then have "\<forall>c \<in> set (phrases_of_line fallback_env hamlet_line). total_phrases_in_line c = 3"
    by (simp only: n)
  then have a: "list_all (\<lambda>c. total_phrases_in_line c = 3)
      (phrases_of_line fallback_env hamlet_line)"
    by (simp only: list_all_iff)
  from c h have "\<forall>c \<in> set ?out. total_fragments_in_line c
        = Some (sum_list (map (fragments_created fallback_env 3 6)
                  (filter (\<lambda>l. line_chunk_key l = line_key c) [hamlet_line, six_word_line])))"
    by blast
  then have b: "list_all (\<lambda>c. total_fragments_in_line c
        = Some (sum_list (map (fragments_created fallback_env 3 6)
                  (filter (\<lambda>l. line_chunk_key l = line_key c) [hamlet_line, six_word_line])))) ?out"
    by (simp only: list_all_iff)
  have kk: "line_chunk_key hamlet_line \<noteq> line_chunk_key six_word_line"
    by (simp add: line_chunk_key_def hamlet_line_def six_word_line_def get_or_def get_none_def)
  from c h have "\<forall>c \<in> set ?out.
      \<forall>l. filter (\<lambda>l. line_chunk_key l = line_key c) [hamlet_line, six_word_line] = [l] \<longrightarrow>
        source_chunk_id c = lc_chunk_id l \<and>
        total_fragments_in_line c = Some (fragments_created fallback_env 3 6 l)"
    by blast
  with kk have "\<forall>c \<in> set ?out. line_key c = line_chunk_key six_word_line \<longrightarrow>
        source_chunk_id c = lc_chunk_id six_word_line \<and>
        total_fragments_in_line c = Some (fragments_created fallback_env 3 6 six_word_line)"
    by simp
  then have u: "list_all (\<lambda>c. source_chunk_id c = lc_chunk_id six_word_line \<and>
        total_fragments_in_line c = Some (fragments_created fallback_env 3 6 six_word_line))
     (filter (\<lambda>c. line_key c = line_chunk_key six_word_line) ?out)"
    by (simp add: list_all_iff)
  from p n a h t f b u show ?thesis by (intro conjI)
qed

section \<open>Properties of the validator and the failsafe result\<close>


lemma space_not_alnum [simp]: "\<not> isalnum CHR '' ''"
  by (simp add: isalnum_def in_range_def)

lemma apostrophe_not_alnum [simp]: "\<not> isalnum apostrophe"
  by (simp add: isalnum_def in_range_def apostrophe_def)

lemma isalnum_lower [simp]: "isalnum (lower c) = isalnum c"
  by (auto simp: isalnum_def lower_def in_range_def)















section \<open>Properties of the diversity ranking\<close>

lemma mmr_scan_first_max:
  "mmr_scan lam ranked pool i best = Inr (Some (m, idx)) \<Longrightarrow>
   (case best of
      None \<Rightarrow> i \<le> idx \<and> idx < i + length pool \<and> m = mmr_score lam ranked (pool ! (idx - i)) \<and>
               (\<forall>j < length pool. mmr_score lam ranked (pool ! j) \<le> m) \<and>
               (\<forall>j < idx - i. mmr_score lam ranked (pool ! j) < m)
    | Some (m0, idx0) \<Rightarrow>
        (\<forall>j < length pool. mmr_score lam ranked (pool ! j) \<le> m) \<and> m0 \<le> m \<and>
        ((idx = idx0 \<and> m = m0) \<or>
         (i \<le> idx \<and> idx < i + length pool \<and> m0 < m \<and>
          m = mmr_score lam ranked (pool ! (idx - i)) \<and>
          (\<forall>j < idx - i. mmr_score lam ranked (pool ! j) < m))))"
proof (induction pool arbitrary: i best)
  case Nil
  then show ?case by (auto split: option.splits)
next
  case (Cons c rest)
  let ?s = "mmr_score lam ranked c"
  from Cons.prems have nz: "1 + cq_score c \<noteq> 0" by (auto split: if_splits)
  show ?case
  proof (cases "case best of None \<Rightarrow> True | Some (m0, idx0) \<Rightarrow> ?s > m0")
    case True
    with Cons.prems nz have r: "mmr_scan lam ranked rest (Suc i) (Some (?s, i)) = Inr (Some (m, idx))"
      by (simp add: Let_def)
    from Cons.IH [OF r] have
      a: "\<forall>j < length rest. mmr_score lam ranked (rest ! j) \<le> m" and b: "?s \<le> m" and
      c: "(idx = i \<and> m = ?s) \<or>
         (Suc i \<le> idx \<and> idx < Suc i + length rest \<and> ?s < m \<and>
          m = mmr_score lam ranked (rest ! (idx - Suc i)) \<and>
          (\<forall>j < idx - Suc i. mmr_score lam ranked (rest ! j) < m))"
      by simp_all
    have all: "\<forall>j < length (c # rest). mmr_score lam ranked ((c # rest) ! j) \<le> m"
      using a b by (auto simp: nth_Cons split: nat.splits)
    from c have sel: "i \<le> idx \<and> idx < i + length (c # rest) \<and>
        m = mmr_score lam ranked ((c # rest) ! (idx - i)) \<and>
        (\<forall>j < idx - i. mmr_score lam ranked ((c # rest) ! j) < m)"
    proof
      assume "idx = i \<and> m = ?s"
      then show ?thesis by simp
    next
      assume h: "Suc i \<le> idx \<and> idx < Suc i + length rest \<and> ?s < m \<and>
          m = mmr_score lam ranked (rest ! (idx - Suc i)) \<and>
          (\<forall>j < idx - Suc i. mmr_score lam ranked (rest ! j) < m)"
      then have e: "idx - i = Suc (idx - Suc i)" by arith
      from h show ?thesis unfolding e by (auto simp: nth_Cons split: nat.splits)
    qed
    show ?thesis
    proof (cases best)
      case None
      show ?thesis unfolding None by (simp only: option.case) (use all sel in blast)
    next
      case (Some p)
      obtain m0 idx0 where p: "p = (m0, idx0)" by (cases p)
      with Some True have "m0 < ?s" by simp
      with b have lt: "m0 < m" and le: "m0 \<le> m" by simp_all
      show ?thesis unfolding Some p
        by (simp only: option.case prod.case) (use all sel lt le in blast)
    qed
  next
    case False
    then obtain m0 idx0 where best: "best = Some (m0, idx0)" and le: "?s \<le> m0"
      by (auto split: option.splits)
    with Cons.prems nz have r: "mmr_scan lam ranked rest (Suc i) (Some (m0, idx0)) = Inr (Some (m, idx))"
      by (simp add: Let_def)
    from Cons.IH [OF r] have
      a: "\<forall>j < length rest. mmr_score lam ranked (rest ! j) \<le> m" and b: "m0 \<le> m" and
      c: "(idx = idx0 \<and> m = m0) \<or>
         (Suc i \<le> idx \<and> idx < Suc i + length rest \<and> m0 < m \<and>
          m = mmr_score lam ranked (rest ! (idx - Suc i)) \<and>
          (\<forall>j < idx - Suc i. mmr_score lam ranked (rest ! j) < m))"
      by simp_all
    have all: "\<forall>j < length (c # rest). mmr_score lam ranked ((c # rest) ! j) \<le> m"
      using a b le by (auto simp: nth_Cons split: nat.splits)
    from c have "(idx = idx0 \<and> m = m0) \<or>
         (i \<le> idx \<and> idx < i + length (c # rest) \<and> m0 < m \<and>
          m = mmr_score lam ranked ((c # rest) ! (idx - i)) \<and>
          (\<forall>j < idx - i. mmr_score lam ranked ((c # rest) ! j) < m))"
    proof
      assume "idx = idx0 \<and> m = m0"
      then show ?thesis by simp
    next
      assume h: "Suc i \<le> idx \<and> idx < Suc i + length rest \<and> m0 < m \<and>
          m = mmr_score lam ranked (rest ! (idx - Suc i)) \<and>
          (\<forall>j < idx - Suc i. mmr_score lam ranked (rest ! j) < m)"
      then have e: "idx - i = Suc (idx - Suc i)" by arith
      from h le have "?s < m" by simp
      with h show ?thesis unfolding e by (auto simp: nth_Cons split: nat.splits)
    qed
    then show ?thesis unfolding best
      by (simp only: option.case prod.case) (use all b in blast)
  qed
qed

lemma mmr_scan_tie_break:
  assumes "mmr_scan lam ranked pool 0 None = Inr (Some (m, idx))"
  shows "idx < length pool \<and> m = mmr_score lam ranked (pool ! idx) \<and>
         (\<forall>j < length pool. mmr_score lam ranked (pool ! j) \<le> m) \<and>
         (\<forall>j < idx. mmr_score lam ranked (pool ! j) < m)"
  using mmr_scan_first_max [OF assms]
  by (simp only: option.case diff_zero add.left_neutral) blast


lemma same_text_score_maps:
  "list_all2 same_text_score xs ys \<Longrightarrow>
   map cq_text xs = map cq_text ys \<and> map cq_score xs = map cq_score ys"
  by (induction rule: list_all2_induct) (simp_all add: same_text_score_def)

lemma max_similarity_texts:
  "max_similarity c r
     = fold (\<lambda>t m. max m (compute_similarity (cq_text c) t)) (map cq_text r) 0"
  by (simp add: max_similarity_def fold_map comp_def)

lemma mmr_score_same:
  "same_text_score c c' \<Longrightarrow> map cq_text r = map cq_text r' \<Longrightarrow>
   mmr_score lam r c = mmr_score lam r' c'"
  by (simp add: mmr_score_def max_similarity_texts same_text_score_def)

lemma mmr_scan_same:
  "list_all2 same_text_score pool pool' \<Longrightarrow> map cq_text r = map cq_text r' \<Longrightarrow>
   mmr_scan lam r pool i best = mmr_scan lam r' pool' i best"
proof (induction arbitrary: i best rule: list_all2_induct)
  case Nil
  show ?case by simp
next
  case (Cons c pool c' pool')
  from Cons.hyps(1) Cons.prems have "mmr_score lam r c = mmr_score lam r' c'"
    by (rule mmr_score_same)
  moreover from Cons.hyps(1) have "cq_score c = cq_score c'"
    by (simp add: same_text_score_def)
  ultimately show ?case using Cons.IH [OF Cons.prems] by (simp add: Let_def)
qed

lemma same_score: "same_text_score x y \<Longrightarrow> cq_score x = cq_score y"
  by (simp add: same_text_score_def)

lemma insort_same:
  "list_all2 same_text_score xs ys \<Longrightarrow> same_text_score x y \<Longrightarrow>
   list_all2 same_text_score (insort_key cq_score x xs) (insort_key cq_score y ys)"
proof (induction rule: list_all2_induct)
  case Nil
  then show ?case by simp
next
  case (Cons a xs b ys)
  from Cons.hyps(1) have "cq_score a = cq_score b" by (rule same_score)
  moreover from Cons.prems have "cq_score x = cq_score y" by (rule same_score)
  ultimately show ?case using Cons by simp
qed

lemma sort_key_same:
  "list_all2 same_text_score xs ys \<Longrightarrow>
   list_all2 same_text_score (sort_key cq_score xs) (sort_key cq_score ys)"
  by (induction rule: list_all2_induct) (simp_all add: sort_key_def insort_same)

lemma mmr_loop_same:
  "list_all2 same_text_score ranked ranked' \<Longrightarrow>
   list_all2 same_text_score remaining remaining' \<Longrightarrow>
   rel_sum (=) (list_all2 same_text_score)
     (mmr_loop lam n ranked remaining) (mmr_loop lam n ranked' remaining')"
proof (induction lam n ranked remaining arbitrary: ranked' remaining' rule: mmr_loop.induct)
  case (1 lam n ranked remaining)
  note pr = "1.prems"
  note rk = pr(1) and rm = pr(2)
  from rk rm have len: "length ranked = length ranked'" "length remaining = length remaining'"
    by (simp_all add: list_all2_lengthD)
  from rk have texts: "map cq_text ranked = map cq_text ranked'"
    by (simp add: same_text_score_maps)
  have scan: "mmr_scan lam ranked remaining 0 None = mmr_scan lam ranked' remaining' 0 None"
    using rm texts by (rule mmr_scan_same)
  show ?case
  proof (cases "remaining = [] \<or> \<not> length ranked < n")
    case True
    with len have "remaining' = [] \<or> \<not> length ranked' < n" by auto
    with True rk show ?thesis
      by (simp add: mmr_loop.simps [of lam n ranked remaining]
          mmr_loop.simps [of lam n ranked' remaining'])
  next
    case False
    with len have False': "\<not> (remaining' = [] \<or> \<not> length ranked' < n)" by auto
    have u: "mmr_loop lam n ranked remaining =
        (case mmr_scan lam ranked remaining 0 None of
           Inl e \<Rightarrow> Inl e
         | Inr None \<Rightarrow> Inr ranked
         | Inr (Some (max_mmr_score, max_mmr_idx)) \<Rightarrow>
             (if max_mmr_idx < length remaining
              then mmr_loop lam n (ranked @ [remaining ! max_mmr_idx])
                     (take max_mmr_idx remaining @ drop (Suc max_mmr_idx) remaining)
              else Inl (OtherError ''IndexError'')))"
      using False by (simp add: mmr_loop.simps [of lam n ranked remaining])
    have u': "mmr_loop lam n ranked' remaining' =
        (case mmr_scan lam ranked' remaining' 0 None of
           Inl e \<Rightarrow> Inl e
         | Inr None \<Rightarrow> Inr ranked'
         | Inr (Some (max_mmr_score, max_mmr_idx)) \<Rightarrow>
             (if max_mmr_idx < length remaining'
              then mmr_loop lam n (ranked' @ [remaining' ! max_mmr_idx])
                     (take max_mmr_idx remaining' @ drop (Suc max_mmr_idx) remaining')
              else Inl (OtherError ''IndexError'')))"
      using False' by (simp add: mmr_loop.simps [of lam n ranked' remaining'])
    show ?thesis
    proof (cases "mmr_scan lam ranked remaining 0 None")
      case (Inl e)
      with scan have Inl': "mmr_scan lam ranked' remaining' 0 None = Inl e" by simp
      show ?thesis unfolding u u' Inl Inl' by simp
    next
      case (Inr best)
      with scan have Inr': "mmr_scan lam ranked' remaining' 0 None = Inr best" by simp
      show ?thesis
      proof (cases best)
        case None
        show ?thesis unfolding u u' Inr Inr' None using rk by simp
      next
        case (Some p)
        obtain m idx where p: "p = (m, idx)" by (cases p)
        show ?thesis
        proof (cases "idx < length remaining")
          case False
          with len have "\<not> idx < length remaining'" by simp
          with False show ?thesis unfolding u u' Inr Inr' Some p by simp
        next
          case True
          with len have True': "idx < length remaining'" by simp
          from rm True have pick: "same_text_score (remaining ! idx) (remaining' ! idx)"
            by (rule list_all2_nthD)
          with rk have rk': "list_all2 same_text_score (ranked @ [remaining ! idx])
              (ranked' @ [remaining' ! idx])"
            by (simp add: list_all2_appendI)
          from rm have rm': "list_all2 same_text_score
              (take idx remaining @ drop (Suc idx) remaining)
              (take idx remaining' @ drop (Suc idx) remaining')"
            by (intro list_all2_appendI list_all2_takeI list_all2_dropI)
          note IH = "1.IH" [OF \<open>\<not> (remaining = [] \<or> \<not> length ranked < n)\<close> Inr Some p [symmetric] True rk' rm']
          show ?thesis unfolding u u' Inr Inr' Some p using True True' IH by simp
        qed
      qed
    qed
  qed
qed

lemma rank_candidates_same:
  assumes "list_all2 same_text_score candidates candidates'"
  shows "rel_sum (=) (list_all2 same_text_score)
     (rank_candidates mmr_lambda lambda_param candidates)
     (rank_candidates mmr_lambda lambda_param candidates')"
proof -
  let ?s = "sort_key cq_score candidates" and ?s' = "sort_key cq_score candidates'"
  from assms have s: "list_all2 same_text_score ?s ?s'" by (rule sort_key_same)
  then have len: "length ?s = length ?s'" by (rule list_all2_lengthD)
  from assms have e: "candidates = [] \<longleftrightarrow> candidates' = []" by (auto simp: list_all2_Nil list_all2_Nil2)
  show ?thesis
  proof (cases "candidates = [] \<or> length ?s \<le> 1")
    case True
    with e len s show ?thesis by (auto simp: rank_candidates_def Let_def)
  next
    case False
    then obtain c cs where cs: "?s = c # cs" by (cases ?s) auto
    with s obtain c' cs' where cs': "?s' = c' # cs'" and
      h: "same_text_score c c'" and t: "list_all2 same_text_score cs cs'"
      by (auto simp: list_all2_Cons1)
    from h have "list_all2 same_text_score [c] [c']" by simp
    note l = mmr_loop_same [OF this t]
    define lam where "lam = (case lambda_param of None \<Rightarrow> mmr_lambda | Some l \<Rightarrow> l)"
    from False cs have 1: "rank_candidates mmr_lambda lambda_param candidates
        = mmr_loop lam (length ?s) [c] cs"
      by (simp add: rank_candidates_def Let_def lam_def)
    from False cs have "cs \<noteq> []" by auto
    with t have "cs' \<noteq> []" by (auto simp: list_all2_Nil2)
    with False e len cs cs' have 2: "rank_candidates mmr_lambda lambda_param candidates'
        = mmr_loop lam (length ?s) [c'] cs'"
      by (simp add: rank_candidates_def Let_def lam_def)
    show ?thesis unfolding 1 2 by (rule l)
  qed
qed

text \<open>
  Claim C6.  \<open>rank_candidates\<close> is a function of the texts and scores of the candidates, in
  their order, and of lambda: two lists that agree on them are ranked in the same order
  (or raise the same error).  In every round the candidate selected from the pool is the
  first one with the greatest MMR score, so that a tie goes to the candidate that is
  earlier in the pool.
\<close>

theorem rank_candidates_deterministic:
  "(list_all2 same_text_score candidates candidates' \<longrightarrow>
      rel_sum (=) (list_all2 same_text_score)
        (rank_candidates mmr_lambda lambda_param candidates)
        (rank_candidates mmr_lambda lambda_param candidates')) \<and>
   (mmr_scan lam ranked pool 0 None = Inr (Some (m, idx)) \<longrightarrow>
      idx < length pool \<and> m = mmr_score lam ranked (pool ! idx) \<and>
      (\<forall>j < length pool. mmr_score lam ranked (pool ! j) \<le> m) \<and>
      (\<forall>j < idx. mmr_score lam ranked (pool ! j) < m))"
  using rank_candidates_same mmr_scan_tie_break by blast

theorem rank_candidates_deterministic_witness:
  "list_all2 same_text_score tied_candidates (map (cq_reference_update Map.empty) tied_candidates) \<and>
   rel_sum (=) (list_all2 same_text_score)
     (rank_candidates (3 / 5) None tied_candidates)
     (rank_candidates (3 / 5) None (map (cq_reference_update Map.empty) tied_candidates)) \<and>
   map_sum id (map cq_text) (rank_candidates (3 / 5) None tied_candidates)
     = Inr [''to be'', ''sweet sorrow'', ''fair is foul''] \<and>
   mmr_scan (3 / 5) [tied_candidates ! 1] [tied_candidates ! 0, tied_candidates ! 2] 0 None
     = Inr (Some (3 / 10, 0)) \<and>
   mmr_score (3 / 5) [tied_candidates ! 1] ([tied_candidates ! 0, tied_candidates ! 2] ! 1) = 3 / 10 \<and>
   mmr_score (3 / 5) [tied_candidates ! 1] ([tied_candidates ! 0, tied_candidates ! 2] ! 0) = 3 / 10"
proof -
  have a: "list_all2 same_text_score tied_candidates
      (map (cq_reference_update Map.empty) tied_candidates)"
    by (simp add: tied_candidates_def same_text_score_def)
  have r: "map_sum id (map cq_text) (rank_candidates (3 / 5) None tied_candidates)
     = Inr [''to be'', ''sweet sorrow'', ''fair is foul'']"
    by code_simp
  have s: "mmr_scan (3 / 5) [tied_candidates ! 1] [tied_candidates ! 0, tied_candidates ! 2] 0 None
     = Inr (Some (3 / 10, 0))"
    by code_simp
  have t: "mmr_score (3 / 5) [tied_candidates ! 1] ([tied_candidates ! 0, tied_candidates ! 2] ! 1)
      = 3 / 10"
    by code_simp
  note c = rank_candidates_deterministic [of tied_candidates
      "map (cq_reference_update Map.empty) tied_candidates" "3 / 5" None "3 / 5"
      "[tied_candidates ! 1]" "[tied_candidates ! 0, tied_candidates ! 2]" "3 / 10" 0]
  from c a have d: "rel_sum (=) (list_all2 same_text_score)
     (rank_candidates (3 / 5) None tied_candidates)
     (rank_candidates (3 / 5) None (map (cq_reference_update Map.empty) tied_candidates))"
    by blast
  from c s have "3 / 10 = mmr_score (3 / 5) [tied_candidates ! 1]
      ([tied_candidates ! 0, tied_candidates ! 2] ! 0)"
    by blast
  with a d r s t show ?thesis by simp
qed

section \<open>Properties of translate\_line\<close>

text \<open>
  The unfolded recursion is the function's own equation: the call made after a failed
  standard assembly is \<open>translate_line\<close> itself with hybrid search on and no results.
\<close>

lemma main_steps_hybrid:
  "main_steps again mgr True modern_line results lam w
   = main_steps again' mgr True modern_line results lam w"
  by (simp add: main_steps_def)

lemma translate_line_with_hybrid:
  "translate_line_with again mgr (Some True) modern_line results lam w
   = translate_line_with again' mgr (Some True) modern_line results lam w"
  by (simp add: translate_line_with_def main_steps_hybrid [where again = again and again' = again']
      cong: option.case_cong)

lemma translate_line_rec:
  "translate_line mgr use_hybrid_search modern_line results mmr_lambda w =
   translate_line_with (translate_line mgr (Some True) modern_line [] None)
     mgr use_hybrid_search modern_line results mmr_lambda w"
proof -
  have "translate_line mgr (Some True) modern_line [] None
      = translate_line_with (\<lambda>w'. (Inr None, w')) mgr (Some True) modern_line [] None"
    unfolding translate_line_def by (rule ext) (rule translate_line_with_hybrid)
  then show ?thesis by (simp add: translate_line_def)
qed

text \<open>The events of the failsafe and of STEP 6.\<close>

lemma run_okI:
  "events w' = events w @ new \<Longrightarrow> settled mgr res new \<Longrightarrow> run_ok mgr w (Inr res, w')"
  by (simp add: run_ok_def new_events_def)

lemma failsafe_mark_events:
  "\<exists>ms. events (failsafe_mark ref w) = events w @ ms \<and> length (filter is_marked ms) \<le> 1"
  by (auto simp add: failsafe_mark_def mark_world_def save_world_def
      split: pyval.splits option.splits)

lemma create_single_quote_result_events:
  assumes "create_single_quote_result quote modern_line w = Inr (result, w')"
  shows "is_failsafe result \<and>
         (\<exists>ms. events w' = events w @ ms \<and> length (filter is_marked ms) \<le> 1)"
  using assms failsafe_mark_events [of _ w]
  by (auto simp add: create_single_quote_result_def failsafe_result_def split: option.splits)

lemma search_failsafe_cases:
  assumes "search_failsafe mgr modern_line w = (res, w')"
  shows "(res = None \<and> w' = w) \<or>
         (\<exists>result ms. res = Some result \<and> is_failsafe result \<and>
            events w' = events w @ ms \<and> length (filter is_marked ms) \<le> 1)"
  using assms create_single_quote_result_events
  by (fastforce simp add: search_failsafe_def split: sum.splits option.splits prod.splits)

lemma search_failsafe_settles:
  assumes e: "events w1 = events w @ new1" and m: "filter is_marked new1 = []"
  shows "run_ok mgr w (case search_failsafe mgr modern_line w1 of (res, w') \<Rightarrow> (Inr res, w'))"
proof (cases "search_failsafe mgr modern_line w1")
  case (Pair res w')
  from search_failsafe_cases [OF Pair] show ?thesis
  proof
    assume "res = None \<and> w' = w1"
    with e m Pair show ?thesis by (simp add: run_okI [of _ _ new1] settled_def)
  next
    assume "\<exists>result ms. res = Some result \<and> is_failsafe result \<and>
            events w' = events w1 @ ms \<and> length (filter is_marked ms) \<le> 1"
    then obtain result ms where r: "res = Some result" "is_failsafe result"
      "events w' = events w1 @ ms" "length (filter is_marked ms) \<le> 1" by blast
    from r e have "events w' = events w @ (new1 @ ms)" by simp
    moreover from r m have "settled mgr res (new1 @ ms)" by (simp add: settled_def)
    ultimately have "run_ok mgr w (Inr res, w')" by (rule run_okI)
    with Pair show ?thesis by simp
  qed
qed

lemma inner_handler_settles:
  assumes e: "events w1 = events w @ new1" and m: "filter is_marked new1 = []"
  shows "case inner_handler mgr modern_line results w1 of
           (Inr res, w2) \<Rightarrow> run_ok mgr w (Inr res, w2)
         | (Inl e', w2) \<Rightarrow> w2 = w1"
proof (cases "top_line results")
  case None
  with search_failsafe_settles [OF e m, of mgr modern_line] show ?thesis
    by (simp add: inner_handler_def split: prod.splits)
next
  case (Some quote)
  show ?thesis
  proof (cases "create_single_quote_result quote modern_line w1")
    case (Inl err)
    with Some show ?thesis by (simp add: inner_handler_def)
  next
    case (Inr p)
    obtain result w2 where p: "p = (result, w2)" by (cases p)
    from create_single_quote_result_events [OF Inr [unfolded p]]
    obtain ms where r: "is_failsafe result" "events w2 = events w1 @ ms"
      "length (filter is_marked ms) \<le> 1" by blast
    from r e have "events w2 = events w @ (new1 @ ms)" by simp
    moreover from r m have "settled mgr (Some result) (new1 @ ms)" by (simp add: settled_def)
    ultimately have "run_ok mgr w (Inr (Some result), w2)" by (rule run_okI)
    with Some Inr p show ?thesis by (simp add: inner_handler_def)
  qed
qed

lemma marks_key_of_Cons:
  "list_all (marks_key_of refs) ms \<Longrightarrow> list_all (marks_key_of (ref # refs)) ms"
proof (induction ms)
  case Nil
  show ?case by simp
next
  case (Cons m ms)
  then show ?case by (cases m) simp_all
qed

lemma mark_references_events:
  "\<exists>ms. events (mark_references refs w) = events w @ ms \<and> list_all (marks_key_of refs) ms"
proof (induction refs arbitrary: w)
  case Nil
  show ?case by simp
next
  case (Cons ref refs)
  define w1 where "w1 = (case get_or (ref_word_index ref) (PStr []) of
          PStr s \<Rightarrow>
            (if s \<noteq> []
             then (case step6_word_indices s of
                     None \<Rightarrow> w
                   | Some word_indices \<Rightarrow> mark_world (make_ref_key ref) word_indices w)
             else w)
        | _ \<Rightarrow> w)"
  have d: "events w1 = events w \<or> (\<exists>r. events w1 = events w @ [Marked (make_ref_key ref) r])"
    unfolding w1_def by (auto simp add: mark_world_def split: pyval.splits option.splits)
  have s: "mark_references (ref # refs) w = mark_references refs w1"
    unfolding w1_def by simp
  from Cons.IH [of w1] obtain ms where
    ms: "events (mark_references refs w1) = events w1 @ ms" "list_all (marks_key_of refs) ms"
    by blast
  from ms(2) have k: "list_all (marks_key_of (ref # refs)) ms" by (rule marks_key_of_Cons)
  from d show ?case
  proof
    assume "events w1 = events w"
    with ms(1) s k have "events (mark_references (ref # refs) w) = events w @ ms \<and>
        list_all (marks_key_of (ref # refs)) ms"
      by simp
    then show ?thesis by blast
  next
    assume "\<exists>r. events w1 = events w @ [Marked (make_ref_key ref) r]"
    then obtain r where "events w1 = events w @ [Marked (make_ref_key ref) r]" by blast
    with ms(1) s k have
      "events (mark_references (ref # refs) w) = events w @ (Marked (make_ref_key ref) r # ms) \<and>
        list_all (marks_key_of (ref # refs)) (Marked (make_ref_key ref) r # ms)"
      by simp
    then show ?thesis by blast
  qed
qed

lemma finish_steps_cases:
  "case finish_steps mgr search_type_name modern_line tmap assembled_result w of
     (Inr res, w') \<Rightarrow> run_ok mgr w (Inr res, w')
   | (Inl e, w') \<Rightarrow> (\<exists>new. events w' = events w @ new \<and> filter is_marked new = [])"
proof -
  let ?t = "strip (asm_text assembled_result)"
  let ?ids = "asm_temp_ids assembled_result"
  show ?thesis
  proof (cases "?t = [] \<or> ?ids = [] \<or> list_ex (\<lambda>tid. map_of tmap tid = None) ?ids")
    case True
    then show ?thesis by (auto simp add: finish_steps_def Let_def)
  next
    case False
    show ?thesis
    proof (cases "those (map cq_reference (List.map_filter (map_of tmap) ?ids))")
      case None
      with False show ?thesis by (simp add: finish_steps_def Let_def)
    next
      case (Some refs)
      let ?ok = "validate_line (validator_env mgr) (validator_ground_truth mgr) ?t refs"
      let ?w1 = "w\<lparr>events := events w @ [Validated ?t refs ?ok]\<rparr>"
      show ?thesis
      proof (cases ?ok)
        case no: False
        have "events ?w1 = events w @ [Validated ?t refs False] \<and>
              filter is_marked [Validated ?t refs False] = []"
          using no by simp
        then have "\<exists>new. events ?w1 = events w @ new \<and> filter is_marked new = []" by blast
        with False Some no show ?thesis by (simp add: finish_steps_def Let_def)
      next
        case yes: True
        from mark_references_events [of refs ?w1] obtain ms where
          ms: "events (mark_references refs ?w1) = events ?w1 @ ms"
            "list_all (marks_key_of refs) ms" by blast
        let ?w2 = "save_world (mark_references refs ?w1)"
        let ?r = "\<lparr>tr_text = ?t, tr_temp_ids = ?ids,
                   tr_references = map full_reference (zip ?ids refs),
                   original_modern_line = modern_line,
                   search_type = Some search_type_name,
                   is_failsafe = False\<rparr>"
        from ms(1) yes have "events ?w2 = events w @ (Validated ?t refs True # ms)"
          by (simp add: save_world_def)
        moreover from ms(2) yes have "settled mgr (Some ?r) (Validated ?t refs True # ms)"
          by (simp add: settled_def validated_trace_def)
        ultimately have "run_ok mgr w (Inr (Some ?r), ?w2)" by (rule run_okI)
        with False Some yes show ?thesis by (simp add: finish_steps_def Let_def)
      qed
    qed
  qed
qed

lemma main_steps_cases:
  assumes again: "\<And>w. run_ok mgr w (again w)"
  shows "case main_steps again mgr use_hybrid_search modern_line results mmr_lambda w of
     (Inr res, w') \<Rightarrow> run_ok mgr w (Inr res, w')
   | (Inl e, w') \<Rightarrow> (\<exists>new. events w' = events w @ new \<and> filter is_marked new = [])"
proof -
  define P where "P = (\<lambda>out :: translation option outcome. case out of
     (Inr res, w') \<Rightarrow> run_ok mgr w (Inr res, w')
   | (Inl e, w') \<Rightarrow> (\<exists>new. events w' = events w @ new \<and> filter is_marked new = []))"
  have f: "\<And>e. P (Inl e, w)" by (simp add: P_def)
  have a: "P (again w)"
    using again [of w] unfolding P_def run_ok_def
    by (cases "again w") (simp split: sum.splits)
  have fin: "\<And>s tm r. P (finish_steps mgr s modern_line tm r w)"
    unfolding P_def by (rule finish_steps_cases)
  have "P (main_steps again mgr use_hybrid_search modern_line results mmr_lambda w)"
    unfolding main_steps_def Let_def
    by (simp add: f a fin split: sum.split prod.split option.split)
  then show ?thesis by (simp add: P_def)
qed

lemma translate_line_with_run_ok:
  assumes again: "\<And>w. run_ok mgr w (again w)"
    and session: "get_or (translation_id mgr) [] \<noteq> []"
  shows "run_ok mgr w (translate_line_with again mgr use_hybrid_search modern_line results mmr_lambda w)"
proof -
  define uh where "uh = (case use_hybrid_search of
                             None \<Rightarrow> default_search_mode mgr = ''hybrid''
                           | Some b \<Rightarrow> b)"
  define lam where "lam = get_or mmr_lambda (config_mmr_lambda mgr)"
  have e0: "events w = events w @ []" by simp
  have m0: "filter is_marked [] = []" by simp
  show ?thesis
  proof (cases "initial_results mgr uh modern_line results")
    case None
    with session search_failsafe_settles [OF e0 m0, of mgr modern_line] show ?thesis
      by (simp add: translate_line_with_def uh_def)
  next
    case (Some results')
    obtain out w1 where ms: "main_steps again mgr uh modern_line results' lam w = (out, w1)"
      by (cases "main_steps again mgr uh modern_line results' lam w")
    note c = main_steps_cases [where again = again and use_hybrid_search = uh
        and modern_line = modern_line and results = results' and mmr_lambda = lam and w = w,
        OF again, unfolded ms]
    show ?thesis
    proof (cases out)
      case (Inr res)
      with c session Some ms show ?thesis
        by (simp add: translate_line_with_def uh_def [symmetric] lam_def [symmetric])
    next
      case (Inl e)
      with c obtain new1 where n: "events w1 = events w @ new1" "filter is_marked new1 = []"
        by auto
      obtain out2 w2 where ih: "inner_handler mgr modern_line results' w1 = (out2, w2)"
        by (cases "inner_handler mgr modern_line results' w1")
      note h = inner_handler_settles [OF n, of mgr modern_line results', unfolded ih]
      show ?thesis
      proof (cases out2)
        case (Inr res)
        with h session Some ms Inl ih show ?thesis
          by (simp add: translate_line_with_def uh_def [symmetric] lam_def [symmetric])
      next
        case inl2: (Inl e')
        with h have "w2 = w1" by simp
        with session Some ms Inl ih inl2 search_failsafe_settles [OF n, of mgr modern_line]
        show ?thesis
          by (simp add: translate_line_with_def uh_def [symmetric] lam_def [symmetric])
      qed
    qed
  qed
qed

lemma translate_line_run_ok:
  assumes session: "get_or (translation_id mgr) [] \<noteq> []"
  shows "run_ok mgr w (translate_line mgr use_hybrid_search modern_line results mmr_lambda w)"
proof -
  have d: "\<And>w. run_ok mgr w (Inr None, w)"
    by (simp add: run_ok_def new_events_def settled_def)
  have "\<And>w. run_ok mgr w
      (translate_line_with (\<lambda>w'. (Inr None, w')) mgr (Some True) modern_line [] None w)"
    using d session by (rule translate_line_with_run_ok)
  then show ?thesis
    unfolding translate_line_def using session by (rule translate_line_with_run_ok)
qed




text \<open>
  C9: with a session started (\<open>translation_id\<close> set and not empty), \<open>translate_line\<close>
  returns to its caller whatever its collaborators do, retrieval, prompt preparation and
  assembly being arbitrary functions that may raise: it never raises, and what it
  returns is \<open>None\<close>, or a failsafe result, or a result whose text the validator accepted
  in this run.
\<close>

theorem translate_line_never_raises:
  assumes "translation_id mgr = Some tid" and "tid \<noteq> []"
  shows "\<exists>res w'. translate_line mgr use_hybrid_search modern_line results mmr_lambda w = (Inr res, w') \<and>
     (res = None \<or>
      (\<exists>result. res = Some result \<and>
         (is_failsafe result \<or>
          (\<exists>references.
             Validated (tr_text result) references True \<in> set (new_events w w') \<and>
             validate_line (validator_env mgr) (validator_ground_truth mgr)
               (tr_text result) references))))"
proof -
  from assms have "get_or (translation_id mgr) [] \<noteq> []" by (simp add: get_or_def)
  then have r: "run_ok mgr w
      (translate_line mgr use_hybrid_search modern_line results mmr_lambda w)"
    by (rule translate_line_run_ok)
  obtain out w' where
    t: "translate_line mgr use_hybrid_search modern_line results mmr_lambda w = (out, w')"
    by (cases "translate_line mgr use_hybrid_search modern_line results mmr_lambda w")
  from r t obtain res where o: "out = Inr res" and s: "settled mgr res (new_events w w')"
    by (cases out) (simp_all add: run_ok_def)
  have "res = None \<or>
      (\<exists>result. res = Some result \<and>
         (is_failsafe result \<or>
          (\<exists>references.
             Validated (tr_text result) references True \<in> set (new_events w w') \<and>
             validate_line (validator_env mgr) (validator_ground_truth mgr)
               (tr_text result) references)))"
  proof (cases res)
    case None
    then show ?thesis by simp
  next
    case (Some result)
    show ?thesis
    proof (cases "is_failsafe result")
      case True
      with Some show ?thesis by simp
    next
      case False
      with s Some have "validated_trace mgr result (new_events w w')"
        by (simp add: settled_def)
      then have "\<exists>references.
             Validated (tr_text result) references True \<in> set (new_events w w') \<and>
             validate_line (validator_env mgr) (validator_ground_truth mgr)
               (tr_text result) references"
        by (auto simp add: validated_trace_def split: list.splits event.splits)
      with Some show ?thesis by simp
    qed
  qed
  with t o show ?thesis by simp
qed

theorem translate_line_never_raises_witness:
  "translation_id raising_manager = Some ''t1'' \<and> ''t1'' \<noteq> [] \<and>
   translate_line raising_manager None ''To live or to die'' [] None session_world
     = (Inr None, session_world) \<and>
   (\<exists>res w'. translate_line raising_manager None ''To live or to die'' example_results None
       session_world = (Inr res, w') \<and>
     (res = None \<or>
      (\<exists>result. res = Some result \<and>
         (is_failsafe result \<or>
          (\<exists>references.
             Validated (tr_text result) references True \<in> set (new_events session_world w') \<and>
             validate_line (validator_env raising_manager)
               (validator_ground_truth raising_manager) (tr_text result) references)))))"
proof -
  have h: "translation_id raising_manager = Some ''t1''"
    by (simp add: raising_manager_def stuck_manager_def)
  have n: "''t1'' \<noteq> []" by simp
  have e: "translate_line raising_manager None ''To live or to die'' [] None session_world
     = (Inr None, session_world)"
    by (simp add: translate_line_def translate_line_with_def initial_results_def main_steps_def
        inner_handler_def search_failsafe_def top_line_def raising_manager_def stuck_manager_def
        get_or_def)
  from translate_line_never_raises [OF h n] e h n show ?thesis by blast
qed




end
